theory Spec2Isabelle
  imports Complex_Main "HOL-Library.AList"
begin

section \<open>Data model\<close>

text \<open>
  The model follows \<^verbatim>\<open>src/src/indexManager.ts\<close>, \<^verbatim>\<open>src/src/encoder.ts\<close>,
  \<^verbatim>\<open>src/src/retriever.ts\<close>, \<^verbatim>\<open>src/src/memvidChat.ts\<close> and the utility module
  (\<^verbatim>\<open>chunkText\<close>, \<^verbatim>\<open>processQrText\<close>, \<^verbatim>\<open>generateQrBuffer\<close>).

  A JavaScript string is a \<^typ>\<open>string\<close>, one \<^typ>\<open>char\<close> per code unit; a rejected
  promise or a thrown exception is the \<open>Inl\<close> branch of a sum, returned together with the
  state the object is left in.
\<close>

datatype error =
    IndexNotInitialized
  | EmbeddingFailed
  | FileNotFound
  | IndexFileCorrupt
  | RetrieverNotReady
  | VideoBufferMissing
  | FpsZero
  | DirectoryNotCreated
  | FfmpegFailed
  | CodecConfigNotFound

text \<open>
  \<^verbatim>\<open>interface ChunkMetadata { id; frame; length }\<close>. The field \<open>frame\<close> is read as
  \<^verbatim>\<open>frames[i]\<close>, which is \<^verbatim>\<open>undefined\<close> past the end of the array: \<open>None\<close> here.
\<close>

record ChunkMetadata =
  id_cm :: nat
  frame :: "nat option"
  length_cm :: nat

record SearchResult =
  chunk_id :: nat
  metadata_sr :: ChunkMetadata
  distance :: real

text \<open>
  The approximate-nearest-neighbour graph is the class \<^verbatim>\<open>HNSW\<close> of the package
  \<^verbatim>\<open>hnsw\<close>, which is not part of the repository: its operations are parameters.
  \<open>addPoint\<close> returns whether the call completed (\<open>False\<close>: it threw) and the graph it
  leaves; \<open>fromJSON\<close> is \<open>None\<close> when it throws.
\<close>

record ('g, 'j) HNSW =
  new_HNSW :: "nat \<Rightarrow> 'g"
  addPoint :: "'g \<Rightarrow> nat \<Rightarrow> real list \<Rightarrow> bool \<times> 'g"
  searchKNN :: "'g \<Rightarrow> real list \<Rightarrow> int \<Rightarrow> (nat \<times> real) list"
  toJSON :: "'g \<Rightarrow> 'j"
  fromJSON :: "'j \<Rightarrow> 'g option"

text \<open>
  \<^verbatim>\<open>class HNSWIndexManager\<close>. The field \<open>model\<close> is the \<^verbatim>\<open>embed\<close> method of the
  embedding model (\<open>None\<close>: the promise rejects); \<open>embed_calls\<close> records the argument of
  every call made to it. \<open>metadata\<close> is the \<^verbatim>\<open>Map<number, ChunkMetadata>\<close> in insertion
  order.
\<close>

record 'g HNSWIndexManager =
  model :: "string list \<Rightarrow> real list list option"
  embed_calls :: "string list list"
  dimension :: nat
  index :: "'g option"
  metadata :: "(nat \<times> ChunkMetadata) list"
  nextChunkId :: nat
  config_index_path :: "string option"

text \<open>The files of the index, as the values \<^verbatim>\<open>JSON.parse\<close> reads back from them.\<close>

datatype 'j file_content =
    HnswJson 'j
  | MetaJson nat "(nat \<times> ChunkMetadata) list"

type_synonym 'j filesystem = "string \<rightharpoonup> 'j file_content"

section \<open>HNSWIndexManager\<close>

definition new_HNSWIndexManager ::
  "(string list \<Rightarrow> real list list option) \<Rightarrow> nat \<Rightarrow> string option \<Rightarrow> 'g HNSWIndexManager" where
  "new_HNSWIndexManager m d p =
     \<lparr>model = m, embed_calls = [], dimension = d, index = None, metadata = [],
      nextChunkId = 0, config_index_path = p\<rparr>"

definition initIndex :: "('g, 'j) HNSW \<Rightarrow> 'g HNSWIndexManager \<Rightarrow> 'g HNSWIndexManager" where
  "initIndex lib s =
     (case index s of
        Some g \<Rightarrow> s
      | None \<Rightarrow> s\<lparr>index := Some (new_HNSW lib (dimension s))\<rparr>)"

text \<open>
  The body of the \<^verbatim>\<open>for\<close> loop of \<^verbatim>\<open>addChunks\<close> for the embedding at position \<open>i\<close>.
  The id is taken before the \<^verbatim>\<open>try\<close> block; inside it, a throwing \<^verbatim>\<open>addPoint\<close> and the
  read \<^verbatim>\<open>chunks[i].length\<close> past the end of \<^verbatim>\<open>chunks\<close> both land in the \<^verbatim>\<open>catch\<close>.
\<close>

definition addChunks_step ::
  "('g, 'j) HNSW \<Rightarrow> string list \<Rightarrow> nat list \<Rightarrow> nat \<Rightarrow> real list
     \<Rightarrow> 'g HNSWIndexManager \<times> nat list \<Rightarrow> 'g HNSWIndexManager \<times> nat list" where
  "addChunks_step lib chunks frames i embedding st =
     (case st of (s, addedIds) \<Rightarrow>
        if length embedding \<noteq> dimension s then (s, addedIds)
        else
          let chunkId = nextChunkId s;
              s1 = s\<lparr>nextChunkId := nextChunkId s + 1\<rparr>
          in (case index s1 of
                None \<Rightarrow> (s1, addedIds)
              | Some g \<Rightarrow>
                  (case addPoint lib g chunkId embedding of (ok, g') \<Rightarrow>
                     let s2 = s1\<lparr>index := Some g'\<rparr> in
                     if ok \<and> i < length chunks then
                       let meta = \<lparr>id_cm = chunkId,
                                   frame = (if i < length frames then Some (frames ! i) else None),
                                   length_cm = length (chunks ! i)\<rparr>
                       in (s2\<lparr>metadata := AList.update chunkId meta (metadata s2)\<rparr>,
                           addedIds @ [chunkId])
                     else (s2, addedIds))))"

fun addChunks_loop ::
  "('g, 'j) HNSW \<Rightarrow> string list \<Rightarrow> nat list \<Rightarrow> nat \<Rightarrow> real list list
     \<Rightarrow> 'g HNSWIndexManager \<times> nat list \<Rightarrow> 'g HNSWIndexManager \<times> nat list" where
  "addChunks_loop lib chunks frames i [] st = st"
| "addChunks_loop lib chunks frames i (e # es) st =
     addChunks_loop lib chunks frames (Suc i) es (addChunks_step lib chunks frames i e st)"

definition addChunks ::
  "('g, 'j) HNSW \<Rightarrow> 'g HNSWIndexManager \<Rightarrow> string list \<Rightarrow> nat list
     \<Rightarrow> (error + nat list) \<times> 'g HNSWIndexManager" where
  "addChunks lib s chunks frames =
     (case index s of
        None \<Rightarrow> (Inl IndexNotInitialized, s)
      | Some g \<Rightarrow>
          if chunks = [] then (Inr [], s)
          else
            let s1 = s\<lparr>embed_calls := embed_calls s @ [chunks]\<rparr> in
            (case model s chunks of
               None \<Rightarrow> (Inl EmbeddingFailed, s1)
             | Some embeddings \<Rightarrow>
                 (case addChunks_loop lib chunks frames 0 embeddings (s1, []) of
                    (s2, addedIds) \<Rightarrow> (Inr addedIds, s2))))"

definition search_join :: "(nat \<times> ChunkMetadata) list \<Rightarrow> (nat \<times> real) list \<Rightarrow> SearchResult list" where
  "search_join md result =
     concat (map (\<lambda>(chunkId, d).
        case map_of md chunkId of
          Some meta \<Rightarrow> [\<lparr>chunk_id = chunkId, metadata_sr = meta, distance = d\<rparr>]
        | None \<Rightarrow> []) result)"

definition search ::
  "('g, 'j) HNSW \<Rightarrow> 'g HNSWIndexManager \<Rightarrow> string \<Rightarrow> int
     \<Rightarrow> (error + SearchResult list) \<times> 'g HNSWIndexManager" where
  "search lib s query topK =
     (case index s of
        None \<Rightarrow> (Inl IndexNotInitialized, s)
      | Some g \<Rightarrow>
          if query = [] then (Inr [], s)
          else
            let s1 = s\<lparr>embed_calls := embed_calls s @ [[query]]\<rparr> in
            (case model s [query] of
               None \<Rightarrow> (Inl EmbeddingFailed, s1)
             | Some [] \<Rightarrow> (Inr [], s1)
             | Some (queryEmbedding # _) \<Rightarrow>
                 if length queryEmbedding \<noteq> dimension s then (Inr [], s1)
                 else (Inr (search_join (metadata s1) (searchKNN lib g queryEmbedding topK)), s1)))"

text \<open>\<^verbatim>\<open>basePath || this.config.index.path || 'memvid_index'\<close>: an empty string is falsy.\<close>

definition resolvePath :: "string option \<Rightarrow> string option \<Rightarrow> string" where
  "resolvePath basePath configPath =
     (case basePath of
        Some p \<Rightarrow> if p \<noteq> [] then p
                  else (case configPath of
                          Some q \<Rightarrow> if q \<noteq> [] then q else ''memvid_index''
                        | None \<Rightarrow> ''memvid_index'')
      | None \<Rightarrow> (case configPath of
                   Some q \<Rightarrow> if q \<noteq> [] then q else ''memvid_index''
                 | None \<Rightarrow> ''memvid_index''))"

definition save ::
  "('g, 'j) HNSW \<Rightarrow> 'g HNSWIndexManager \<Rightarrow> string option \<Rightarrow> 'j filesystem
     \<Rightarrow> (error + unit) \<times> 'j filesystem" where
  "save lib s basePath fs =
     (case index s of
        None \<Rightarrow> (Inl IndexNotInitialized, fs)
      | Some g \<Rightarrow>
          let savePath = resolvePath basePath (config_index_path s);
              hnswFilePath = savePath @ ''.hnsw.json'';
              metaFilePath = savePath @ ''.meta.json'';
              fs1 = fs(hnswFilePath \<mapsto> HnswJson (toJSON lib g));
              fs2 = fs1(metaFilePath \<mapsto> MetaJson (nextChunkId s) (metadata s))
          in (Inr (), fs2))"

text \<open>\<^verbatim>\<open>new Map(entries)\<close>: the entries are set one after the other.\<close>

definition new_Map :: "(nat \<times> ChunkMetadata) list \<Rightarrow> (nat \<times> ChunkMetadata) list" where
  "new_Map entries = fold (\<lambda>(k, v) m. AList.update k v m) entries []"

text \<open>
  \<^verbatim>\<open>load\<close> assigns \<^verbatim>\<open>metadata\<close> and \<^verbatim>\<open>nextChunkId\<close> before it reads the graph file, so a
  failure on the graph leaves them assigned.
\<close>

definition load ::
  "('g, 'j) HNSW \<Rightarrow> 'g HNSWIndexManager \<Rightarrow> string option \<Rightarrow> 'j filesystem
     \<Rightarrow> (error + unit) \<times> 'g HNSWIndexManager" where
  "load lib s basePath fs =
     (let loadPath = resolvePath basePath (config_index_path s);
          hnswFilePath = loadPath @ ''.hnsw.json'';
          metaFilePath = loadPath @ ''.meta.json''
      in case fs metaFilePath of
           Some (MetaJson n serializableMetadata) \<Rightarrow>
             let s1 = s\<lparr>metadata := new_Map serializableMetadata, nextChunkId := n\<rparr> in
             (case fs hnswFilePath of
                Some (HnswJson indexJson) \<Rightarrow>
                  (case fromJSON lib indexJson of
                     Some g \<Rightarrow> (Inr (), s1\<lparr>index := Some g\<rparr>)
                   | None \<Rightarrow> (Inl IndexFileCorrupt, s1))
              | Some (MetaJson _ _) \<Rightarrow> (Inl IndexFileCorrupt, s1)
              | None \<Rightarrow> (Inl FileNotFound, s1))
         | Some (HnswJson _) \<Rightarrow> (Inl IndexFileCorrupt, s)
         | None \<Rightarrow> (Inl FileNotFound, s))"

text \<open>
  Two facts hold of every manager that the constructor builds and the methods change: a
  \<^verbatim>\<open>Map\<close> holds a key once, and every id in use was handed out by \<^verbatim>\<open>nextChunkId++\<close>.
\<close>

definition manager_inv :: "'g HNSWIndexManager \<Rightarrow> bool" where
  "manager_inv s =
     (distinct (map fst (metadata s)) \<and> list_all (\<lambda>k. k < nextChunkId s) (map fst (metadata s)))"

text \<open>The entry that \<^verbatim>\<open>addChunks\<close> records under id \<open>k\<close> for the item at position \<open>j\<close>.\<close>

definition IndexEntry_for :: "string list \<Rightarrow> nat list \<Rightarrow> nat \<times> nat \<Rightarrow> nat \<times> ChunkMetadata" where
  "IndexEntry_for texts frames =
     (\<lambda>(k, j). (k, \<lparr>id_cm = k, frame = Some (frames ! j), length_cm = length (texts ! j)\<rparr>))"

text \<open>
  What a batch is to do, item by item, in the words of the specification, against which
  the loop of \<^verbatim>\<open>addChunks\<close> is compared below. \<open>matching_items d n i embeddings\<close> are
  the items that are not skipped: every embedding of the configured dimension \<open>d\<close>, with
  the id it is given (the ids are counted up from \<open>n\<close>, one for each such item) and its
  position in the batch (counted from \<open>i\<close>). \<open>insert_points\<close> inserts such items into the
  graph one after the other, each into the graph the one before has left, and returns the
  last graph with the id and the position of every item whose \<^verbatim>\<open>addPoint\<close> completed.
\<close>

fun matching_items :: "nat \<Rightarrow> nat \<Rightarrow> nat \<Rightarrow> real list list \<Rightarrow> (nat \<times> nat \<times> real list) list" where
  "matching_items d n i [] = []"
| "matching_items d n i (e # es) =
     (if length e = d then (n, i, e) # matching_items d (Suc n) (Suc i) es
      else matching_items d n (Suc i) es)"

fun insert_points ::
  "('g, 'j) HNSW \<Rightarrow> 'g \<Rightarrow> (nat \<times> nat \<times> real list) list \<Rightarrow> 'g \<times> (nat \<times> nat) list" where
  "insert_points lib g [] = (g, [])"
| "insert_points lib g ((k, j, e) # items) =
     (case addPoint lib g k e of (ok, g') \<Rightarrow>
        (case insert_points lib g' items of (g'', inserted) \<Rightarrow>
           (g'', if ok then (k, j) # inserted else inserted)))"

text \<open>
  A sequence of \<^verbatim>\<open>addChunks\<close> calls, each given as its two arguments, run one after the
  other on the same manager; the ids the calls return are collected in order (a rejected
  call returns none).
\<close>

definition addChunks_call ::
  "('g, 'j) HNSW \<Rightarrow> string list \<times> nat list \<Rightarrow> nat list \<times> 'g HNSWIndexManager
     \<Rightarrow> nat list \<times> 'g HNSWIndexManager" where
  "addChunks_call lib call st =
     (case st of (returned, s) \<Rightarrow>
        (case addChunks lib s (fst call) (snd call) of
           (Inl e, s1) \<Rightarrow> (returned, s1)
         | (Inr ids, s1) \<Rightarrow> (returned @ ids, s1)))"

definition addChunks_calls ::
  "('g, 'j) HNSW \<Rightarrow> (string list \<times> nat list) list \<Rightarrow> 'g HNSWIndexManager
     \<Rightarrow> nat list \<times> 'g HNSWIndexManager" where
  "addChunks_calls lib calls s = fold (addChunks_call lib) calls ([], s)"

text \<open>Every embedding succeeds at the configured dimension, one vector for each text.\<close>

definition embeds_at :: "(string list \<Rightarrow> real list list option) \<Rightarrow> nat \<Rightarrow> bool" where
  "embeds_at m d =
     (\<forall>texts. \<exists>embs. m texts = Some embs \<and> length embs = length texts
        \<and> list_all (\<lambda>e. length e = d) embs)"

section \<open>Text chunking\<close>

text \<open>
  The white space of \<^verbatim>\<open>String.prototype.trim\<close> and of the regular expression class
  \<^verbatim>\<open>\s\<close>, among the code units below 256: tab, line feed, vertical tab, form feed,
  carriage return, space and no-break space.
\<close>

definition isWhitespace :: "char \<Rightarrow> bool" where
  "isWhitespace c =
     (c = CHR 0x09 \<or> c = CHR 0x0A \<or> c = CHR 0x0B \<or> c = CHR 0x0C \<or> c = CHR 0x0D
      \<or> c = CHR 0x20 \<or> c = CHR 0xA0)"

definition trim :: "string \<Rightarrow> string" where
  "trim s = rev (dropWhile isWhitespace (rev (dropWhile isWhitespace s)))"

text \<open>
  The numbers of \<^verbatim>\<open>simpleChunkText\<close>. The parameters \<^verbatim>\<open>size\<close> and \<^verbatim>\<open>overlap\<close> are
  integers, counts of code units as the configuration gives them (\<^verbatim>\<open>chunkSize: 1024\<close>,
  \<^verbatim>\<open>overlap: 32\<close>), and the only other number the function forms is \<^verbatim>\<open>size / 2\<close>: the
  index \<^verbatim>\<open>i\<close> and the bound \<^verbatim>\<open>end\<close> run over integers and halves, on which the
  arithmetic of the code on doubles is exact. They are kept here as integers that count
  halves: \<open>i2\<close> is twice \<^verbatim>\<open>i\<close>, \<open>size2\<close> twice \<^verbatim>\<open>size\<close>, and so on.

  \<^verbatim>\<open>text.slice(i, end)\<close> for \<open>0 \<le> i\<close> and \<open>0 \<le> end\<close>: both are truncated to integers
  and cut at the length of the text.
\<close>

definition slice :: "string \<Rightarrow> int \<Rightarrow> int \<Rightarrow> string" where
  "slice text i2 end2 = drop (nat (i2 div 2)) (take (nat (end2 div 2)) text)"

text \<open>
  The \<^verbatim>\<open>while\<close> loop of \<^verbatim>\<open>simpleChunkText\<close>. The loop is entered with \<open>0 < size2\<close>
  and \<open>overlap2 < size2\<close> (after the clamp of the overlap to \<^verbatim>\<open>size / 2\<close>); the two
  conditions are repeated in the guard, where they carry the termination proof.
\<close>

function simpleChunkText_loop :: "string \<Rightarrow> int \<Rightarrow> int \<Rightarrow> int \<Rightarrow> string list" where
  "simpleChunkText_loop text size2 overlap2 i2 =
     (if i2 < 2 * int (length text) \<and> 0 < size2 \<and> overlap2 < size2 then
        let end2 = min (i2 + size2) (2 * int (length text));
            j2 = i2 + (size2 - overlap2);
            k2 = (if j2 \<ge> end2 \<and> end2 < 2 * int (length text) then end2 else j2)
        in slice text i2 end2 # simpleChunkText_loop text size2 overlap2 k2
      else [])"
  by pat_completeness auto
termination
proof (relation "measure (\<lambda>(text, size2, overlap2, i2). nat (2 * int (length text) - i2))",
    goal_cases)
  case 1
  show ?case by simp
next
  case (2 t size2 overlap2 i2 end2 j2 k2)
  then show ?case
    by (auto simp: min_def split: if_splits)
qed

definition simpleChunkText :: "string \<Rightarrow> int \<Rightarrow> int \<Rightarrow> string list" where
  "simpleChunkText text sz overlap =
     (if text = [] \<or> sz \<le> 0 then []
      else
        let overlap2 = (if overlap \<ge> sz then sz else 2 * overlap)
        in filter (\<lambda>chunk. length chunk > 0) (simpleChunkText_loop text (2 * sz) overlap2 0))"

definition isSentenceEnd :: "char \<Rightarrow> bool" where
  "isSentenceEnd c = (c = CHR ''.'' \<or> c = CHR ''?'' \<or> c = CHR ''!'')"

text \<open>
  One attempt to match \<^verbatim>\<open>/(?<=[.?!])\s+|\n\n+|\r\n\r\n+/\<close> at the current position:
  \<open>afterPunct\<close> says whether the code unit before the position is one of \<^verbatim>\<open>.?!\<close>, and
  the result is the text after the match. The alternatives are tried in order and each
  quantifier is greedy.
\<close>

definition matchSentenceEndings :: "bool \<Rightarrow> string \<Rightarrow> string option" where
  "matchSentenceEndings afterPunct rest =
     (if afterPunct \<and> rest \<noteq> [] \<and> isWhitespace (hd rest) then Some (dropWhile isWhitespace rest)
      else if take 2 rest = [CHR 0x0A, CHR 0x0A]
        then Some (dropWhile (\<lambda>c. c = CHR 0x0A) (drop 2 rest))
      else if take 4 rest = [CHR 0x0D, CHR 0x0A, CHR 0x0D, CHR 0x0A]
        then Some (dropWhile (\<lambda>c. c = CHR 0x0A) (drop 4 rest))
      else None)"

text \<open>
  \<^verbatim>\<open>text.split(sentenceEndings)\<close>: the text is scanned from the left; \<open>cur\<close> is the piece
  collected since the last separator. A match is never empty, so the next piece starts
  right after it, behind a white-space code unit.
\<close>

function split_sentenceEndings :: "bool \<Rightarrow> string \<Rightarrow> string \<Rightarrow> string list" where
  "split_sentenceEndings afterPunct cur rest =
     (case rest of
        [] \<Rightarrow> [cur]
      | c # cs \<Rightarrow>
          (case matchSentenceEndings afterPunct rest of
             Some rest' \<Rightarrow> cur # split_sentenceEndings False [] rest'
           | None \<Rightarrow> split_sentenceEndings (isSentenceEnd c) (cur @ [c]) cs))"
  by pat_completeness auto
termination
proof (relation "measure (\<lambda>(afterPunct, cur, rest). length rest)", goal_cases)
  case 1
  show ?case by simp
next
  case (2 afterPunct cur rest c cs)
  then show ?case by simp
next
  case (3 afterPunct cur rest c cs rest')
  have "length (dropWhile P xs) \<le> length xs" for P and xs :: string
    by (induction xs) auto
  from this [of isWhitespace cs] this [of "\<lambda>c. c = CHR 0x0A" "drop 2 (c # cs)"]
    this [of "\<lambda>c. c = CHR 0x0A" "drop 4 (c # cs)"] 3
  show ?case
    by (auto simp: matchSentenceEndings_def split: if_splits)
qed

text \<open>
  The body of the \<^verbatim>\<open>for\<close> loop of \<^verbatim>\<open>chunkText\<close> for one sentence, on
  \<open>(chunks, currentChunk)\<close>, and the loop over the sentences.
\<close>

definition chunkText_step ::
  "int \<Rightarrow> int \<Rightarrow> string \<Rightarrow> string list \<times> string \<Rightarrow> string list \<times> string" where
  "chunkText_step chunkSize overlap s st =
     (case st of (chunks, currentChunk) \<Rightarrow>
        let sentence = trim s in
        if length sentence = 0 then (chunks, currentChunk)
        else if int (length sentence) > chunkSize then
          let chunks1 = (if length (trim currentChunk) > 0 then chunks @ [trim currentChunk]
                         else chunks);
              subChunks = simpleChunkText sentence chunkSize overlap
          in (chunks1 @ filter (\<lambda>sc. length sc > 0) subChunks, [])
        else
          let potentialNextLength =
                length currentChunk + (if length currentChunk > 0 then 1 else 0) + length sentence
          in if int potentialNextLength > chunkSize \<and> length currentChunk > 0
             then (chunks @ [trim currentChunk], sentence)
             else (chunks, (if length currentChunk > 0 then currentChunk @ '' '' else currentChunk)
                           @ sentence))"

fun chunkText_loop ::
  "int \<Rightarrow> int \<Rightarrow> string list \<Rightarrow> string list \<times> string \<Rightarrow> string list \<times> string" where
  "chunkText_loop chunkSize overlap [] st = st"
| "chunkText_loop chunkSize overlap (s # ss) st =
     chunkText_loop chunkSize overlap ss (chunkText_step chunkSize overlap s st)"

definition chunkText :: "string \<Rightarrow> int \<Rightarrow> int \<Rightarrow> string list" where
  "chunkText text chunkSize overlap =
     (if text = [] \<or> trim text = [] then []
      else if chunkSize \<le> 0 then []
      else
        let overlap1 = (if overlap < 0 then 0 else overlap);
            overlap2 = (if overlap1 \<ge> chunkSize then chunkSize div 2 else overlap1);
            sentences = filter (\<lambda>s. s \<noteq> [] \<and> length (trim s) > 0)
                          (split_sentenceEndings False [] text)
        in if length sentences = 0 then simpleChunkText text chunkSize overlap2
           else
             (case chunkText_loop chunkSize overlap2 sentences ([], []) of
                (chunks, currentChunk) \<Rightarrow>
                  filter (\<lambda>chunk. length chunk > 0)
                    (if length (trim currentChunk) > 0 then chunks @ [trim currentChunk]
                     else chunks)))"

text \<open>
  The sentences of a text as \<^verbatim>\<open>chunkText\<close> sees them: the pieces between the matches of
  \<^verbatim>\<open>sentenceEndings\<close> that are not blank, each trimmed; and the sentences joined by single
  spaces.
\<close>

definition sentences_of :: "string \<Rightarrow> string list" where
  "sentences_of t =
     map trim (filter (\<lambda>s. s \<noteq> [] \<and> length (trim s) > 0) (split_sentenceEndings False [] t))"

definition join_spaces :: "string list \<Rightarrow> string" where
  "join_spaces ss = (case ss of [] \<Rightarrow> [] | s # rest \<Rightarrow> foldl (\<lambda>acc t. acc @ '' '' @ t) s rest)"

section \<open>Frame payloads\<close>

text \<open>
  \<^verbatim>\<open>pako.gzip\<close>, \<^verbatim>\<open>pako.ungzip\<close>, \<^verbatim>\<open>btoa\<close> and \<^verbatim>\<open>atob\<close> are library functions and
  are parameters of the model (\<open>None\<close>: the call throws). A byte of a \<^verbatim>\<open>Uint8Array\<close> and
  a code unit below 256 are both a \<^typ>\<open>char\<close>.
\<close>

record codec =
  gzip :: "string \<Rightarrow> string option"
  ungzip :: "string \<Rightarrow> string option"
  btoa :: "string \<Rightarrow> string"
  atob :: "string \<Rightarrow> string option"

definition processQrText :: "codec \<Rightarrow> string \<Rightarrow> string" where
  "processQrText cd qrText =
     (if take 3 qrText = ''GZ:'' then
        (case atob cd (drop 3 qrText) of
           None \<Rightarrow> qrText
         | Some compressed \<Rightarrow>
             (case ungzip cd compressed of
                None \<Rightarrow> qrText
              | Some decompressed \<Rightarrow> decompressed))
      else qrText)"

text \<open>
  The first half of \<^verbatim>\<open>generateQrBuffer\<close>: the value of \<^verbatim>\<open>processedData\<close> that is handed
  to the QR library. The \<^verbatim>\<open>for\<close> loop appends one code unit per byte.
\<close>

definition processedData :: "codec \<Rightarrow> string \<Rightarrow> string" where
  "processedData cd data =
     (if length data > 100 then
        (case gzip cd data of
           None \<Rightarrow> data
         | Some compressed \<Rightarrow>
             let base64String = fold (\<lambda>b acc. acc @ [b]) compressed []
             in ''GZ:'' @ btoa cd base64String)
      else data)"

definition generateQrBuffer :: "codec \<Rightarrow> (string \<Rightarrow> string option) \<Rightarrow> string \<Rightarrow> string option" where
  "generateQrBuffer cd toBuffer data = toBuffer (processedData cd data)"

fun string_of_nat :: "nat \<Rightarrow> string" where
  "string_of_nat n =
     (if n < 10 then [''0123456789'' ! n]
      else string_of_nat (n div 10) @ [''0123456789'' ! (n mod 10)])"

text \<open>\<^verbatim>\<open>JSON.stringify\<close> of a string, and of the object \<^verbatim>\<open>{ text: chunk, frame: i }\<close>.\<close>

definition JSON_quote_char :: "char \<Rightarrow> string" where
  "JSON_quote_char c =
     (if c = CHR 0x22 then [CHR 0x5C, CHR 0x22]
      else if c = CHR 0x5C then [CHR 0x5C, CHR 0x5C]
      else if c = CHR 0x08 then [CHR 0x5C, CHR ''b'']
      else if c = CHR 0x0C then [CHR 0x5C, CHR ''f'']
      else if c = CHR 0x0A then [CHR 0x5C, CHR ''n'']
      else if c = CHR 0x0D then [CHR 0x5C, CHR ''r'']
      else if c = CHR 0x09 then [CHR 0x5C, CHR ''t'']
      else if (of_char c :: nat) < 32 then
        [CHR 0x5C, CHR ''u'', CHR ''0'', CHR ''0'',
         ''0123456789abcdef'' ! (of_char c div 16), ''0123456789abcdef'' ! (of_char c mod 16)]
      else [c])"

definition JSON_quote :: "string \<Rightarrow> string" where
  "JSON_quote s = [CHR 0x22] @ concat (map JSON_quote_char s) @ [CHR 0x22]"

definition chunkPayload :: "string \<Rightarrow> nat \<Rightarrow> string" where
  "chunkPayload chunk frameForChunk =
     ''{'' @ JSON_quote ''text'' @ '':'' @ JSON_quote chunk @ '','' @ JSON_quote ''frame'' @ '':''
       @ string_of_nat frameForChunk @ ''}''"

section \<open>The collaborators outside the repository\<close>

text \<open>
  \<open>qrcode_toBuffer\<close> renders a payload as a PNG (\<open>None\<close>: it throws);
  \<open>runFfmpeg\<close> assembles the written frames, given with their frame numbers, into the
  video file and reads it back (\<open>None\<close>: the command or the read fails);
  \<open>fs_mkdir\<close> says whether the temporary directory for a frame can be created
  (\<open>False\<close>: \<^verbatim>\<open>fs.mkdir\<close> rejects);
  \<open>readFrameQr\<close> extracts one frame of a video buffer at the given rate and decodes its QR
  code (\<open>None\<close>: ffmpeg, the file system or the QR reader fails);
  \<open>JSON_parse_text\<close> is \<^verbatim>\<open>JSON.parse(decodedText).text\<close> (\<open>None\<close>: it throws).
\<close>

record ('g, 'j) boundary =
  hnsw :: "('g, 'j) HNSW"
  compression :: codec
  qrcode_toBuffer :: "string \<Rightarrow> string option"
  runFfmpeg :: "(nat \<times> string) list \<Rightarrow> string option"
  fs_mkdir :: "nat option \<Rightarrow> bool"
  readFrameQr :: "string \<Rightarrow> int \<Rightarrow> nat option \<Rightarrow> string option"
  JSON_parse_text :: "string \<Rightarrow> string option"

section \<open>MemvidEncoder\<close>

record 'g MemvidEncoder =
  chunks :: "string list"
  index_enc :: "'g HNSWIndexManager"
  chunkSize :: int
  overlap :: int
  codecConfig_found :: bool

record buildResult =
  videoBuffer_res :: string
  frameCount :: nat

definition addText :: "'g MemvidEncoder \<Rightarrow> string \<Rightarrow> 'g MemvidEncoder" where
  "addText enc t =
     (if t = [] \<or> trim t = [] then enc
      else enc\<lparr>chunks := chunks enc @ chunkText t (chunkSize enc) (overlap enc)\<rparr>)"

text \<open>
  The body of the first \<^verbatim>\<open>for\<close> loop of \<^verbatim>\<open>buildVideo\<close> for chunk \<open>i\<close>, on the index
  manager and the list of frames written so far. A rejected \<^verbatim>\<open>addChunks\<close> leaves the loop:
  once the status is \<open>Inl\<close> the remaining chunks are not processed.
\<close>

definition buildVideo_frame ::
  "('g, 'j) boundary \<Rightarrow> nat \<Rightarrow> string
     \<Rightarrow> (error + unit) \<times> 'g HNSWIndexManager \<times> (nat \<times> string) list
     \<Rightarrow> (error + unit) \<times> 'g HNSWIndexManager \<times> (nat \<times> string) list" where
  "buildVideo_frame ext i chunk st =
     (case st of
        (Inl e, ix, frameFiles) \<Rightarrow> st
      | (Inr u, ix, frameFiles) \<Rightarrow>
          let frameForChunk = i;
              payload = chunkPayload chunk frameForChunk
          in (case generateQrBuffer (compression ext) (qrcode_toBuffer ext) payload of
                Some qrBuffer \<Rightarrow>
                  (case addChunks (hnsw ext) ix [chunk] [frameForChunk] of
                     (Inl e, ix') \<Rightarrow> (Inl e, ix', frameFiles @ [(frameForChunk, qrBuffer)])
                   | (Inr ids, ix') \<Rightarrow> (Inr (), ix', frameFiles @ [(frameForChunk, qrBuffer)]))
              | None \<Rightarrow> (Inr (), ix, frameFiles)))"

fun buildVideo_frames ::
  "('g, 'j) boundary \<Rightarrow> nat \<Rightarrow> string list
     \<Rightarrow> (error + unit) \<times> 'g HNSWIndexManager \<times> (nat \<times> string) list
     \<Rightarrow> (error + unit) \<times> 'g HNSWIndexManager \<times> (nat \<times> string) list" where
  "buildVideo_frames ext i [] st = st"
| "buildVideo_frames ext i (chunk # rest) st =
     buildVideo_frames ext (Suc i) rest (buildVideo_frame ext i chunk st)"

definition buildVideo ::
  "('g, 'j) boundary \<Rightarrow> 'g MemvidEncoder \<Rightarrow> 'j filesystem
     \<Rightarrow> (error + buildResult) \<times> 'g MemvidEncoder \<times> 'j filesystem" where
  "buildVideo ext enc fs =
     (if length (chunks enc) = 0 then
        (Inr \<lparr>videoBuffer_res = [], frameCount = 0\<rparr>,
         enc\<lparr>index_enc := initIndex (hnsw ext) (index_enc enc)\<rparr>, fs)
      else
        (case buildVideo_frames ext 0 (chunks enc)
                (Inr (), initIndex (hnsw ext) (index_enc enc), []) of
           (Inl e, ix1, frameFiles) \<Rightarrow> (Inl e, enc\<lparr>index_enc := ix1\<rparr>, fs)
         | (Inr u, ix1, frameFiles) \<Rightarrow>
             if \<not> codecConfig_found enc then (Inl CodecConfigNotFound, enc\<lparr>index_enc := ix1\<rparr>, fs)
             else
               (case runFfmpeg ext frameFiles of
                  None \<Rightarrow> (Inl FfmpegFailed, enc\<lparr>index_enc := ix1\<rparr>, fs)
                | Some videoData \<Rightarrow>
                    let frameNumbers = [0..<length (chunks enc)] in
                    (case addChunks (hnsw ext) ix1 (chunks enc) frameNumbers of
                       (Inl e, ix2) \<Rightarrow> (Inl e, enc\<lparr>index_enc := ix2\<rparr>, fs)
                     | (Inr ids, ix2) \<Rightarrow>
                         let fs' = (case config_index_path ix2 of
                                      None \<Rightarrow> fs
                                    | Some p \<Rightarrow>
                                        if p = [] then fs
                                        else snd (save (hnsw ext) ix2 (Some p) fs))
                         in (Inr \<lparr>videoBuffer_res = videoData, frameCount = length frameFiles\<rparr>,
                             enc\<lparr>index_enc := ix2, chunks := []\<rparr>, fs')))))"

section \<open>MemvidRetriever\<close>

text \<open>
  \<open>frameCache\<close> is the object \<^verbatim>\<open>_frameCache\<close>, keyed by the frame number read from the
  metadata (\<open>None\<close>: the key \<^verbatim>\<open>undefined\<close>) and holding \<^verbatim>\<open>string | null\<close>;
  \<open>ready\<close> says that \<^verbatim>\<open>readyPromise\<close> resolved; \<open>extract_calls\<close> records the argument
  of every call of \<^verbatim>\<open>extractFrameAndDecode\<close>.
\<close>

record 'g MemvidRetriever =
  indexManager :: "'g HNSWIndexManager"
  frameCache :: "(nat option \<times> string option) list"
  cacheSize :: int
  fps :: int
  videoBuffer :: "string option"
  ready :: bool
  extract_calls :: "nat option list"

text \<open>
  The \<^verbatim>\<open>try\<close> block of \<^verbatim>\<open>extractFrameAndDecode\<close>: the frame is extracted and its QR code
  read, an empty text counts as unreadable (\<^verbatim>\<open>if (!rawQrText) return null\<close>), and any
  exception is caught and turned into \<^verbatim>\<open>null\<close>.
\<close>

definition decodedFrame :: "('g, 'j) boundary \<Rightarrow> string \<Rightarrow> int \<Rightarrow> nat option \<Rightarrow> string option" where
  "decodedFrame ext buf rate frameNumber =
     (case readFrameQr ext buf rate frameNumber of
        None \<Rightarrow> None
      | Some rawQrText \<Rightarrow>
          if rawQrText = [] then None
          else Some (processQrText (compression ext) rawQrText))"

text \<open>
  \<^verbatim>\<open>extractFrameAndDecode\<close>. Two steps come before the \<^verbatim>\<open>try\<close> block, and what they
  throw leaves the method: the test of the video buffer, and \<^verbatim>\<open>await fs.mkdir(frameDir)\<close>.
\<close>

definition extractFrameAndDecode ::
  "('g, 'j) boundary \<Rightarrow> 'g MemvidRetriever \<Rightarrow> nat option
     \<Rightarrow> (error + string option) \<times> 'g MemvidRetriever" where
  "extractFrameAndDecode ext r frameNumber =
     (let r1 = r\<lparr>extract_calls := extract_calls r @ [frameNumber]\<rparr> in
      case videoBuffer r1 of
        None \<Rightarrow> (Inl VideoBufferMissing, r1)
      | Some buf \<Rightarrow>
          if \<not> fs_mkdir ext frameNumber then (Inl DirectoryNotCreated, r1)
          else (Inr (decodedFrame ext buf (fps r1) frameNumber), r1))"

definition decodeSingleFrame ::
  "('g, 'j) boundary \<Rightarrow> 'g MemvidRetriever \<Rightarrow> nat option
     \<Rightarrow> (error + string option) \<times> 'g MemvidRetriever" where
  "decodeSingleFrame ext r frameNumber =
     (if \<not> ready r then (Inl RetrieverNotReady, r)
      else if videoBuffer r = None then (Inl VideoBufferMissing, r)
      else if fps r = 0 then (Inl FpsZero, r)
      else
        (case map_of (frameCache r) frameNumber of
           Some cached \<Rightarrow> (Inr cached, r)
         | None \<Rightarrow>
             (case extractFrameAndDecode ext r frameNumber of
                (Inl e, r1) \<Rightarrow> (Inl e, r1)
              | (Inr result, r1) \<Rightarrow>
                  (Inr result,
                   if int (length (frameCache r1)) < cacheSize r1
                   then r1\<lparr>frameCache := AList.update frameNumber result (frameCache r1)\<rparr>
                   else r1))))"

definition show_frame :: "nat option \<Rightarrow> string" where
  "show_frame f = (case f of Some n \<Rightarrow> string_of_nat n | None \<Rightarrow> ''undefined'')"

definition notReadable :: "nat option \<Rightarrow> string" where
  "notReadable frameNum = ''[Frame '' @ show_frame frameNum @ '' not readable]''"

definition decodeError :: "nat option \<Rightarrow> string" where
  "decodeError frameNum = ''[Frame '' @ show_frame frameNum @ '' decode error]''"

text \<open>What \<^verbatim>\<open>search\<close> pushes for a frame whose decoded text is \<open>decodedText\<close>.\<close>

definition frame_text :: "('g, 'j) boundary \<Rightarrow> nat option \<Rightarrow> string option \<Rightarrow> string" where
  "frame_text ext frameNum decodedText =
     (case decodedText of
        None \<Rightarrow> notReadable frameNum
      | Some t \<Rightarrow>
          if t = [] then notReadable frameNum
          else (case JSON_parse_text ext t of
                  Some chunkData_text \<Rightarrow> chunkData_text
                | None \<Rightarrow> decodeError frameNum))"

text \<open>
  The body of the \<^verbatim>\<open>for\<close> loop of \<^verbatim>\<open>MemvidRetriever.search\<close> for one search result, on
  the retriever and the texts pushed so far; a rejected \<^verbatim>\<open>_decodeSingleFrame\<close> leaves the
  loop.
\<close>

definition search_decode ::
  "('g, 'j) boundary \<Rightarrow> SearchResult
     \<Rightarrow> (error + unit) \<times> 'g MemvidRetriever \<times> string list
     \<Rightarrow> (error + unit) \<times> 'g MemvidRetriever \<times> string list" where
  "search_decode ext searchResult st =
     (case st of
        (Inl e, r, texts) \<Rightarrow> st
      | (Inr u, r, texts) \<Rightarrow>
          let frameNum = frame (metadata_sr searchResult) in
          (case decodeSingleFrame ext r frameNum of
             (Inl e, r1) \<Rightarrow> (Inl e, r1, texts)
           | (Inr decodedText, r1) \<Rightarrow> (Inr (), r1, texts @ [frame_text ext frameNum decodedText])))"

text \<open>The whole loop, over the search results in order, from an empty array of texts.\<close>

definition search_decode_all ::
  "('g, 'j) boundary \<Rightarrow> SearchResult list \<Rightarrow> 'g MemvidRetriever
     \<Rightarrow> (error + unit) \<times> 'g MemvidRetriever \<times> string list" where
  "search_decode_all ext searchResults r = fold (search_decode ext) searchResults (Inr (), r, [])"

definition search_retriever ::
  "('g, 'j) boundary \<Rightarrow> 'g MemvidRetriever \<Rightarrow> string \<Rightarrow> int
     \<Rightarrow> (error + string list) \<times> 'g MemvidRetriever" where
  "search_retriever ext r query top_k =
     (if \<not> ready r then (Inl RetrieverNotReady, r)
      else
        (case search (hnsw ext) (indexManager r) query top_k of
           (Inl e, ix) \<Rightarrow> (Inl e, r\<lparr>indexManager := ix\<rparr>)
         | (Inr searchResults, ix) \<Rightarrow>
             (case search_decode_all ext searchResults (r\<lparr>indexManager := ix\<rparr>) of
                (Inl e, r1, texts) \<Rightarrow> (Inl e, r1)
              | (Inr u, r1, texts) \<Rightarrow> (Inr texts, r1))))"


text \<open>
  Every frame among the hits that is not in the cache of \<open>r\<close> can have its temporary
  directory created.
\<close>

definition frame_dirs_ok ::
  "('g, 'j) boundary \<Rightarrow> 'g MemvidRetriever \<Rightarrow> SearchResult list \<Rightarrow> bool" where
  "frame_dirs_ok ext r hits =
     list_all (\<lambda>h. map_of (frameCache r) (frame (metadata_sr h)) = None
                 \<longrightarrow> fs_mkdir ext (frame (metadata_sr h))) hits"

section \<open>MemvidChat\<close>

record ChatMessage =
  role :: string
  content :: string

record ('g, 'l) MemvidChat =
  retriever :: "'g MemvidRetriever"
  llmClient :: "'l option"
  conversationHistory :: "ChatMessage list"
  systemPrompt :: string
  contextChunksPerQuery :: int
  maxHistoryLength :: int
  maxContextTokens :: int

fun getContext_loop :: "int \<Rightarrow> string list \<Rightarrow> string \<Rightarrow> string" where
  "getContext_loop maxTokens [] combinedContext = combinedContext"
| "getContext_loop maxTokens (chunk # rest) combinedContext =
     (if int (length (combinedContext @ chunk)) > maxTokens then combinedContext
      else getContext_loop maxTokens rest (combinedContext @ chunk @ [CHR 0x0A, CHR 0x0A]))"

definition getContext ::
  "('g, 'j) boundary \<Rightarrow> ('g, 'l) MemvidChat \<Rightarrow> string \<Rightarrow> (error + string) \<times> ('g, 'l) MemvidChat" where
  "getContext ext c query =
     (case search_retriever ext (retriever c) query (contextChunksPerQuery c) of
        (Inl e, r) \<Rightarrow> (Inl e, c\<lparr>retriever := r\<rparr>)
      | (Inr contextChunks, r) \<Rightarrow>
          if length contextChunks = 0 then (Inr [], c\<lparr>retriever := r\<rparr>)
          else (Inr (trim (getContext_loop (maxContextTokens c) contextChunks [])),
                c\<lparr>retriever := r\<rparr>))"

definition chat ::
  "('g, 'j) boundary \<Rightarrow> ('g, 'l) MemvidChat \<Rightarrow> string \<Rightarrow> (error + string) \<times> ('g, 'l) MemvidChat" where
  "chat ext c message =
     (case getContext ext c message of
        (Inl e, c1) \<Rightarrow> (Inl e, c1)
      | (Inr context, c1) \<Rightarrow>
          if context \<noteq> [] then (Inr (''Context from video:'' @ [CHR 0x0A] @ context), c1)
          else (Inr ''No relevant context found in the video for your query.'', c1))"

definition clearHistory :: "('g, 'l) MemvidChat \<Rightarrow> ('g, 'l) MemvidChat" where
  "clearHistory c = c\<lparr>conversationHistory := []\<rparr>"

section \<open>Example collaborators\<close>

text \<open>
  Small instances of the outside collaborators, on which the theorems below are run: a
  graph that keeps its points in a list and answers a query with the nearest points by
  the sum of absolute differences; an embedding model of dimension 2 that answers the text
  \<open>''bad''\<close> with a vector of dimension 1, and one that answers every text at dimension 2.
\<close>

definition example_hnsw :: "((nat \<times> real list) list, (nat \<times> real list) list) HNSW" where
  "example_hnsw =
     \<lparr>new_HNSW = (\<lambda>d. []),
      addPoint = (\<lambda>g i v. (True, g @ [(i, v)])),
      searchKNN = (\<lambda>g q k. take (nat k)
                     (sort_key snd (map (\<lambda>(i, v). (i, sum_list (map2 (\<lambda>a b. \<bar>a - b\<bar>) v q))) g))),
      toJSON = (\<lambda>g. g),
      fromJSON = (\<lambda>j. Some j)\<rparr>"

definition example_model :: "string list \<Rightarrow> real list list option" where
  "example_model texts = Some (map (\<lambda>t. if t = ''bad'' then [0] else [real (length t), 1]) texts)"

definition example_embedder :: "string list \<Rightarrow> real list list option" where
  "example_embedder texts = Some (map (\<lambda>t. [real (length t), 1]) texts)"

definition example_fresh :: "(nat \<times> real list) list HNSWIndexManager" where
  "example_fresh = initIndex example_hnsw (new_HNSWIndexManager example_embedder 2 (Some ''idx''))"

definition example_manager :: "(nat \<times> real list) list HNSWIndexManager" where
  "example_manager = initIndex example_hnsw (new_HNSWIndexManager example_model 2 (Some ''idx''))"

text \<open>The example manager after one call with a text whose embedding has the wrong dimension.\<close>

definition example_populated :: "(nat \<times> real list) list HNSWIndexManager" where
  "example_populated =
     snd (addChunks example_hnsw example_manager [''a'', ''bad'', ''ccc''] [0, 1, 2])"

text \<open>
  A codec that reverses where gzip compresses and leaves base64 out, a QR library, an
  ffmpeg and a file system that always succeed, and a video whose frame 7 cannot be read
  and whose frame 8 holds a text that is not JSON.
\<close>

definition example_codec :: codec where
  "example_codec =
     \<lparr>gzip = (\<lambda>s. Some (rev s)), ungzip = (\<lambda>b. Some (rev b)),
      btoa = (\<lambda>b. b), atob = (\<lambda>s. Some s)\<rparr>"

definition example_boundary ::
  "((nat \<times> real list) list, (nat \<times> real list) list) boundary" where
  "example_boundary =
     \<lparr>hnsw = example_hnsw,
      compression = example_codec,
      qrcode_toBuffer = (\<lambda>payload. Some ''png''),
      runFfmpeg = (\<lambda>frameFiles. Some ''mp4''),
      fs_mkdir = (\<lambda>f. True),
      readFrameQr = (\<lambda>buf rate f.
         if f = Some 7 then None else if f = Some 8 then Some ''not json'' else Some ''text''),
      JSON_parse_text = (\<lambda>t. if t = ''not json'' then None else Some t)\<rparr>"

definition example_encoder :: "(nat \<times> real list) list MemvidEncoder" where
  "example_encoder =
     \<lparr>chunks = [''a'', ''bb'', ''ccc''],
      index_enc = new_HNSWIndexManager example_embedder 2 (Some ''idx''),
      chunkSize = 1024, overlap = 32, codecConfig_found = True\<rparr>"

text \<open>
  What the libraries promise: \<^verbatim>\<open>atob\<close> decodes what \<^verbatim>\<open>btoa\<close> encodes, and \<^verbatim>\<open>pako.ungzip\<close>
  restores the string that \<^verbatim>\<open>pako.gzip\<close> compressed.
\<close>

definition codec_inverts :: "codec \<Rightarrow> bool" where
  "codec_inverts cd =
     ((\<forall>b. atob cd (btoa cd b) = Some b) \<and> (\<forall>t z. gzip cd t = Some z \<longrightarrow> ungzip cd z = Some t))"



text \<open>
  A retriever over an index whose two entries point at the frames 7 and 8 of the example
  video, with an empty cache of capacity 100.
\<close>

definition example_retriever :: "(nat \<times> real list) list MemvidRetriever" where
  "example_retriever =
     \<lparr>indexManager =
        \<lparr>model = example_embedder, embed_calls = [], dimension = 2,
         index = Some [(0, [1, 1]), (1, [3, 1])],
         metadata = [(0, \<lparr>id_cm = 0, frame = Some 7, length_cm = 1\<rparr>),
                     (1, \<lparr>id_cm = 1, frame = Some 8, length_cm = 3\<rparr>)],
         nextChunkId = 2, config_index_path = Some ''idx''\<rparr>,
      frameCache = [], cacheSize = 100, fps = 30, videoBuffer = Some ''mp4'', ready = True,
      extract_calls = []\<rparr>"

text \<open>A chat over the example retriever, with an LLM client and \<^verbatim>\<open>maxHistoryLength = 2\<close>.\<close>

definition example_chat :: "((nat \<times> real list) list, unit) MemvidChat" where
  "example_chat =
     \<lparr>retriever = example_retriever, llmClient = Some (), conversationHistory = [],
      systemPrompt = ''You are a helpful AI assistant.'', contextChunksPerQuery = 3,
      maxHistoryLength = 2, maxContextTokens = 2000\<rparr>"

text \<open>The example graph with an \<^verbatim>\<open>addPoint\<close> that throws on a vector that begins with 3.\<close>

definition example_hnsw_throwing :: "((nat \<times> real list) list, (nat \<times> real list) list) HNSW" where
  "example_hnsw_throwing =
     example_hnsw\<lparr>addPoint := (\<lambda>g i v. if take 1 v = [3] then (False, g) else (True, g @ [(i, v)]))\<rparr>"






section \<open>Properties of the index manager\<close>

text \<open>
  C10. On an initialized manager, \<^verbatim>\<open>addChunks([], [])\<close> returns the empty array and the
  manager is left as it was: no call reaches the embedding model (the record of calls is
  unchanged), and neither the metadata map nor \<^verbatim>\<open>nextChunkId\<close> changes.
\<close>

theorem addChunks_empty_unchanged:
  assumes "index s = Some g"
  shows "addChunks lib s [] frames = (Inr [], s)"
  using assms by (simp add: addChunks_def)

theorem addChunks_empty_unchanged_witness:
  "index example_manager = Some []
   \<and> addChunks example_hnsw example_manager [] [] = (Inr [], example_manager)"
proof -
  have h: "index example_manager = Some []"
    by (simp add: example_manager_def initIndex_def new_HNSWIndexManager_def example_hnsw_def)
  show ?thesis
    using h addChunks_empty_unchanged [OF h, of example_hnsw "[]"] by simp
qed

lemma update_fresh:
  "k \<notin> set (map fst al) \<Longrightarrow> AList.update k v al = al @ [(k, v)]"
  by (induction al) auto

lemma addChunks_step_frame:
  assumes "addChunks_step lib cks frames i e (s, added) = (s', added')"
  shows "dimension s' = dimension s \<and> model s' = model s \<and> embed_calls s' = embed_calls s
         \<and> config_index_path s' = config_index_path s
         \<and> (index s \<noteq> None \<longrightarrow> index s' \<noteq> None)
         \<and> nextChunkId s' = nextChunkId s + (if length e = dimension s then 1 else 0)"
  using assms
  by (auto simp: addChunks_step_def Let_def split: if_splits option.splits prod.splits)

lemma addChunks_step_ids:
  assumes "addChunks_step lib cks frames i e (s, added) = (s', added')"
      and "\<forall>k \<in> set (map fst (metadata s)). k < nextChunkId s"
  shows "\<exists>new. added' = added @ new \<and> (new = [] \<or> new = [nextChunkId s])
           \<and> (\<forall>k \<in> set new. k < nextChunkId s')
           \<and> map fst (metadata s') = map fst (metadata s) @ new
           \<and> (\<forall>k \<in> set (map fst (metadata s')). k < nextChunkId s')"
proof -
  have nk: "nextChunkId s \<notin> set (map fst (metadata s))"
    using assms(2) by blast
  have upd: "AList.update (nextChunkId s) v (metadata s) = metadata s @ [(nextChunkId s, v)]" for v
    using update_fresh [OF nk] .
  have bound: "\<forall>k \<in> set (map fst (metadata s)). k < Suc (nextChunkId s)"
    using assms(2) less_Suc_eq by blast
  show ?thesis
  proof (cases "length e = dimension s")
    case False
    then show ?thesis using assms by (simp add: addChunks_step_def)
  next
    case dim: True
    have next': "nextChunkId s' = Suc (nextChunkId s)"
      using addChunks_step_frame [OF assms(1)] dim by simp
    have "(added' = added \<and> metadata s' = metadata s)
          \<or> (added' = added @ [nextChunkId s]
              \<and> map fst (metadata s') = map fst (metadata s) @ [nextChunkId s])"
      using assms(1) dim
      by (auto simp: addChunks_step_def Let_def upd split: option.splits prod.splits if_splits)
    then show ?thesis
    proof
      assume "added' = added \<and> metadata s' = metadata s"
      then show ?thesis using bound next' by (intro exI [of _ "[]"]) simp
    next
      assume "added' = added @ [nextChunkId s]
              \<and> map fst (metadata s') = map fst (metadata s) @ [nextChunkId s]"
      then show ?thesis using bound next' by (intro exI [of _ "[nextChunkId s]"]) simp
    qed
  qed
qed

lemma addChunks_loop_frame:
  assumes "addChunks_loop lib cks frames i es (s, added) = (s', added')"
  shows "dimension s' = dimension s \<and> model s' = model s \<and> embed_calls s' = embed_calls s
         \<and> config_index_path s' = config_index_path s
         \<and> (index s \<noteq> None \<longrightarrow> index s' \<noteq> None)
         \<and> nextChunkId s' = nextChunkId s + length (filter (\<lambda>e. length e = dimension s) es)"
  using assms
proof (induction es arbitrary: i s added)
  case Nil
  then show ?case by simp
next
  case (Cons e es)
  obtain s1 a1 where st: "addChunks_step lib cks frames i e (s, added) = (s1, a1)"
    by (cases "addChunks_step lib cks frames i e (s, added)")
  from Cons.prems st have "addChunks_loop lib cks frames (Suc i) es (s1, a1) = (s', added')"
    by simp
  from Cons.IH [OF this] addChunks_step_frame [OF st]
  show ?case by auto
qed

lemma addChunks_loop_ids:
  assumes "addChunks_loop lib cks frames i es (s, added) = (s', added')"
      and "\<forall>k \<in> set (map fst (metadata s)). k < nextChunkId s"
  shows "\<exists>new. added' = added @ new \<and> sorted_wrt (<) new
           \<and> (\<forall>k \<in> set new. nextChunkId s \<le> k \<and> k < nextChunkId s')
           \<and> map fst (metadata s') = map fst (metadata s) @ new
           \<and> (\<forall>k \<in> set (map fst (metadata s')). k < nextChunkId s')"
  using assms
proof (induction es arbitrary: i s added)
  case Nil
  then show ?case by simp
next
  case (Cons e es)
  obtain s1 a1 where st: "addChunks_step lib cks frames i e (s, added) = (s1, a1)"
    by (cases "addChunks_step lib cks frames i e (s, added)")
  from addChunks_step_ids [OF st Cons.prems(2)] obtain new1 where
    n1: "a1 = added @ new1" "new1 = [] \<or> new1 = [nextChunkId s]"
      "\<forall>k \<in> set new1. k < nextChunkId s1"
      "map fst (metadata s1) = map fst (metadata s) @ new1"
      "\<forall>k \<in> set (map fst (metadata s1)). k < nextChunkId s1"
    by blast
  from Cons.prems st have run: "addChunks_loop lib cks frames (Suc i) es (s1, a1) = (s', added')"
    by simp
  from Cons.IH [OF run n1(5)] obtain new2 where
    n2: "added' = a1 @ new2" "sorted_wrt (<) new2"
      "\<forall>k \<in> set new2. nextChunkId s1 \<le> k \<and> k < nextChunkId s'"
      "map fst (metadata s') = map fst (metadata s1) @ new2"
      "\<forall>k \<in> set (map fst (metadata s')). k < nextChunkId s'"
    by blast
  have mono1: "nextChunkId s \<le> nextChunkId s1"
    using addChunks_step_frame [OF st] by simp
  have mono2: "nextChunkId s1 \<le> nextChunkId s'"
    using addChunks_loop_frame [OF run] by simp
  show ?case
  proof (intro exI [of _ "new1 @ new2"] conjI)
    show "added' = added @ new1 @ new2" using n1 n2 by simp
    show "sorted_wrt (<) (new1 @ new2)"
      using n1(2,3) n2(2,3) by (auto simp: sorted_wrt_append)
    show "\<forall>k\<in>set (new1 @ new2). nextChunkId s \<le> k \<and> k < nextChunkId s'"
      using n1(2,3) n2(3) mono1 mono2 by auto
    show "map fst (metadata s') = map fst (metadata s) @ new1 @ new2"
      using n1 n2 by simp
    show "\<forall>k\<in>set (map fst (metadata s')). k < nextChunkId s'" by (rule n2(5))
  qed
qed


lemma addChunks_step_ok:
  assumes "length e = dimension s" "index s \<noteq> None" "i < length cks" "i < length frames"
      and "\<forall>g k v. fst (addPoint lib g k v)"
      and "nextChunkId s \<notin> set (map fst (metadata s))"
  shows "\<exists>s'. addChunks_step lib cks frames i e (s, added) = (s', added @ [nextChunkId s])
           \<and> metadata s' = metadata s @ [IndexEntry_for cks frames (nextChunkId s, i)]"
proof -
  obtain g where g: "index s = Some g" using assms(2) by blast
  obtain ok g' where "addPoint lib g (nextChunkId s) e = (ok, g')"
    by (cases "addPoint lib g (nextChunkId s) e")
  with assms(5) [rule_format, of g "nextChunkId s" e]
  have ap: "addPoint lib g (nextChunkId s) e = (True, g')"
    by simp
  show ?thesis
    using assms(1,3,4) g ap update_fresh [OF assms(6)]
    by (simp add: addChunks_step_def Let_def IndexEntry_for_def)
qed

lemma filter_upt_shift:
  "[j \<leftarrow> [Suc i..<Suc i + m]. P ((e # es) ! (j - i))] = [j \<leftarrow> [Suc i..<Suc i + m]. P (es ! (j - Suc i))]"
  by (rule filter_cong) (auto simp: nth_Cons')

lemma filter_upt_Cons:
  "[j \<leftarrow> [i..<i + length (e # es)]. P ((e # es) ! (j - i))]
     = (if P e then [i] else []) @ [j \<leftarrow> [Suc i..<Suc i + length es]. P (es ! (j - Suc i))]"
proof -
  have "[i..<i + length (e # es)] = i # [Suc i..<Suc i + length es]"
    by (simp add: upt_conv_Cons del: upt_Suc)
  then have "[j \<leftarrow> [i..<i + length (e # es)]. P ((e # es) ! (j - i))]
     = (if P e then [i] else []) @ [j \<leftarrow> [Suc i..<Suc i + length es]. P ((e # es) ! (j - i))]"
    by (simp del: upt_Suc)
  then show ?thesis
    by (simp only: filter_upt_shift)
qed

lemma addChunks_loop_all_ok:
  assumes "addChunks_loop lib cks frames i es (s, added) = (s', added')"
      and "\<forall>k \<in> set (map fst (metadata s)). k < nextChunkId s"
      and "\<forall>g k v. fst (addPoint lib g k v)"
      and "index s \<noteq> None"
      and "i + length es \<le> length cks" "i + length es \<le> length frames"
  shows "added' = added @ [nextChunkId s ..< nextChunkId s']
         \<and> metadata s' = metadata s @ map (IndexEntry_for cks frames)
              (enumerate (nextChunkId s) [j \<leftarrow> [i..<i + length es]. length (es ! (j - i)) = dimension s])"
  using assms
proof (induction es arbitrary: i s added)
  case Nil
  then show ?case by simp
next
  case (Cons e es)
  show ?case
  proof (cases "length e = dimension s")
    case False
    then have st: "addChunks_step lib cks frames i e (s, added) = (s, added)"
      by (simp add: addChunks_step_def)
    with Cons.prems have run: "addChunks_loop lib cks frames (Suc i) es (s, added) = (s', added')"
      by simp
    from Cons.IH [OF run Cons.prems(2,3,4)] Cons.prems(5,6)
    have "added' = added @ [nextChunkId s ..< nextChunkId s']
         \<and> metadata s' = metadata s @ map (IndexEntry_for cks frames)
              (enumerate (nextChunkId s) [j \<leftarrow> [Suc i..<Suc i + length es]. length (es ! (j - Suc i)) = dimension s])"
      by simp
    moreover have "[j \<leftarrow> [i..<i + length (e # es)]. length ((e # es) ! (j - i)) = dimension s]
        = [j \<leftarrow> [Suc i..<Suc i + length es]. length (es ! (j - Suc i)) = dimension s]"
      using False filter_upt_Cons [where i = i and P = "\<lambda>x. length x = dimension s" and e = e and es = es]
      by simp
    ultimately show ?thesis by simp
  next
    case True
    have nk: "nextChunkId s \<notin> set (map fst (metadata s))"
      using Cons.prems(2) by blast
    from addChunks_step_ok [OF True Cons.prems(4) _ _ Cons.prems(3) nk, of i cks frames added]
      Cons.prems(5,6)
    obtain s1 where st: "addChunks_step lib cks frames i e (s, added) = (s1, added @ [nextChunkId s])"
      and md1: "metadata s1 = metadata s @ [IndexEntry_for cks frames (nextChunkId s, i)]"
      by auto
    have fr: "dimension s1 = dimension s" "index s1 \<noteq> None" "nextChunkId s1 = Suc (nextChunkId s)"
      using addChunks_step_frame [OF st] True Cons.prems(4) by auto
    have fresh1: "\<forall>k \<in> set (map fst (metadata s1)). k < nextChunkId s1"
      using Cons.prems(2) md1 fr(3) by (auto simp: IndexEntry_for_def less_Suc_eq)
    from Cons.prems(1) st
    have run: "addChunks_loop lib cks frames (Suc i) es (s1, added @ [nextChunkId s]) = (s', added')"
      by simp
    have le: "Suc (nextChunkId s) \<le> nextChunkId s'"
      using addChunks_loop_frame [OF run] fr(3) by simp
    from Cons.IH [OF run fresh1 Cons.prems(3) fr(2)] Cons.prems(5,6) fr
    have ih: "added' = (added @ [nextChunkId s]) @ [Suc (nextChunkId s) ..< nextChunkId s']"
      "metadata s' = metadata s1 @ map (IndexEntry_for cks frames)
              (enumerate (Suc (nextChunkId s)) [j \<leftarrow> [Suc i..<Suc i + length es]. length (es ! (j - Suc i)) = dimension s])"
      by simp_all
    have flt: "[j \<leftarrow> [i..<i + length (e # es)]. length ((e # es) ! (j - i)) = dimension s]
        = i # [j \<leftarrow> [Suc i..<Suc i + length es]. length (es ! (j - Suc i)) = dimension s]"
      using True filter_upt_Cons [where i = i and P = "\<lambda>x. length x = dimension s" and e = e and es = es]
      by simp
    have "[nextChunkId s ..< nextChunkId s'] = nextChunkId s # [Suc (nextChunkId s) ..< nextChunkId s']"
      using le by (simp add: upt_conv_Cons)
    then show ?thesis
      using ih md1 flt by simp
  qed
qed


lemma manager_inv_iff:
  "manager_inv s \<longleftrightarrow>
     distinct (map fst (metadata s)) \<and> (\<forall>k \<in> set (map fst (metadata s)). k < nextChunkId s)"
  by (simp add: manager_inv_def list_all_iff)

lemma addChunks_facts:
  assumes run: "addChunks lib s cks frames = (res, s')"
  shows "dimension s' = dimension s \<and> model s' = model s
         \<and> config_index_path s' = config_index_path s
         \<and> (index s \<noteq> None \<longrightarrow> index s' \<noteq> None)
         \<and> nextChunkId s \<le> nextChunkId s'"
proof (cases "index s")
  case None
  then show ?thesis using run by (simp add: addChunks_def)
next
  case (Some g)
  show ?thesis
  proof (cases "cks = [] \<or> model s cks = None")
    case True
    then show ?thesis using run Some by (auto simp: addChunks_def Let_def split: if_splits)
  next
    case False
    then obtain embs where embs: "model s cks = Some embs" by auto
    obtain s2 added where loop:
      "addChunks_loop lib cks frames 0 embs (s\<lparr>embed_calls := embed_calls s @ [cks]\<rparr>, []) = (s2, added)"
      by (cases "addChunks_loop lib cks frames 0 embs (s\<lparr>embed_calls := embed_calls s @ [cks]\<rparr>, [])")
    with run Some False embs have "s' = s2"
      by (simp add: addChunks_def)
    with addChunks_loop_frame [OF loop] Some show ?thesis by simp
  qed
qed

lemma addChunks_ids:
  assumes run: "addChunks lib s cks frames = (Inr ids, s')"
      and inv: "manager_inv s"
  shows "sorted_wrt (<) ids
         \<and> (\<forall>k \<in> set ids. nextChunkId s \<le> k \<and> k < nextChunkId s')
         \<and> map fst (metadata s') = map fst (metadata s) @ ids
         \<and> manager_inv s'"
proof -
  from run obtain g where g: "index s = Some g"
    by (cases "index s") (auto simp: addChunks_def)
  show ?thesis
  proof (cases "cks = []")
    case True
    then show ?thesis using run g inv by (simp add: addChunks_def)
  next
    case False
    with run g obtain embs where embs: "model s cks = Some embs"
      by (cases "model s cks") (auto simp: addChunks_def)
    let ?s1 = "s\<lparr>embed_calls := embed_calls s @ [cks]\<rparr>"
    from run g False embs
    have loop: "addChunks_loop lib cks frames 0 embs (?s1, []) = (s', ids)"
      by (simp add: addChunks_def split: prod.splits)
    have fresh: "\<forall>k \<in> set (map fst (metadata ?s1)). k < nextChunkId ?s1"
      using inv by (simp add: manager_inv_iff)
    from addChunks_loop_ids [OF loop fresh] obtain new where
      new: "ids = [] @ new" "sorted_wrt (<) new"
        "\<forall>k \<in> set new. nextChunkId ?s1 \<le> k \<and> k < nextChunkId s'"
        "map fst (metadata s') = map fst (metadata ?s1) @ new"
        "\<forall>k \<in> set (map fst (metadata s')). k < nextChunkId s'"
      by blast
    define K where "K = map fst (metadata s)"
    have K: "distinct K" "\<forall>k \<in> set K. k < nextChunkId s" "map fst (metadata s') = K @ new"
      using inv new(4) by (simp_all add: manager_inv_iff K_def)
    have "distinct new"
      using new(2) strict_sorted_iff by blast
    then have "distinct (K @ new)"
      using K(1,2) new(3) by fastforce
    then show ?thesis
      using new K by (simp add: manager_inv_iff K_def)
  qed
qed


lemma matching_items_ids:
  "map fst (matching_items d n i es) = [n ..< n + length (filter (\<lambda>e. length e = d) es)]"
proof (induction es arbitrary: n i)
  case Nil
  then show ?case by simp
next
  case (Cons e es)
  have "[n..<n + Suc m] = n # [Suc n..<Suc n + m]" for m
    by (simp add: upt_conv_Cons del: upt_Suc)
  with Cons show ?case by (simp del: upt_Suc)
qed

lemma matching_items_positions:
  "map (\<lambda>(k, j, e). j) (matching_items d n i es)
     = [j \<leftarrow> [i..<i + length es]. length (es ! (j - i)) = d]"
proof (induction es arbitrary: n i)
  case Nil
  then show ?case by simp
next
  case (Cons e es)
  from filter_upt_Cons [where i = i and P = "\<lambda>x. length x = d" and e = e and es = es] Cons
  show ?case by simp
qed

lemma matching_items_embeddings:
  "map (\<lambda>(k, j, e). e) (matching_items d n i es) = filter (\<lambda>e. length e = d) es"
  by (induction es arbitrary: n i) simp_all

lemma insert_points_subset:
  "set (snd (insert_points lib g items)) \<subseteq> set (map (\<lambda>(k, j, e). (k, j)) items)"
proof (induction items arbitrary: g)
  case Nil
  then show ?case by simp
next
  case (Cons item items)
  obtain k j e where item: "item = (k, j, e)" by (cases item)
  obtain ok g' where ap: "addPoint lib g k e = (ok, g')" by (cases "addPoint lib g k e")
  obtain g'' ins where rest: "insert_points lib g' items = (g'', ins)"
    by (cases "insert_points lib g' items")
  from Cons [of g'] rest have "set ins \<subseteq> set (map (\<lambda>(k, j, e). (k, j)) items)" by simp
  then show ?case using item ap rest by auto
qed

lemma insert_points_all_ok:
  assumes "\<forall>g k v. fst (addPoint lib g k v)"
  shows "snd (insert_points lib g items) = map (\<lambda>(k, j, e). (k, j)) items"
proof (induction items arbitrary: g)
  case Nil
  then show ?case by simp
next
  case (Cons item items)
  obtain k j e where item: "item = (k, j, e)" by (cases item)
  obtain ok g' where ap: "addPoint lib g k e = (ok, g')" by (cases "addPoint lib g k e")
  with assms [rule_format, of g k e] have ok: "ok" by simp
  obtain g'' ins where rest: "insert_points lib g' items = (g'', ins)"
    by (cases "insert_points lib g' items")
  from Cons [of g'] rest have "ins = map (\<lambda>(k, j, e). (k, j)) items" by simp
  then show ?case using item ap rest ok by simp
qed

lemma addChunks_loop_insert_points:
  assumes "index s = Some g"
      and "\<forall>k \<in> set (map fst (metadata s)). k < nextChunkId s"
      and "i + length es \<le> length cks" "i + length es \<le> length frames"
      and "insert_points lib g (matching_items (dimension s) (nextChunkId s) i es) = (g', inserted)"
  shows "addChunks_loop lib cks frames i es (s, added) =
           (s\<lparr>index := Some g',
              metadata := metadata s @ map (IndexEntry_for cks frames) inserted,
              nextChunkId := nextChunkId s + length (filter (\<lambda>e. length e = dimension s) es)\<rparr>,
            added @ map fst inserted)"
  using assms
proof (induction es arbitrary: i s g g' added inserted)
  case Nil
  then show ?case by simp
next
  case (Cons e es)
  show ?case
  proof (cases "length e = dimension s")
    case False
    then have st: "addChunks_step lib cks frames i e (s, added) = (s, added)"
      by (simp add: addChunks_step_def)
    from Cons.prems(5) False
    have ins: "insert_points lib g (matching_items (dimension s) (nextChunkId s) (Suc i) es)
                 = (g', inserted)"
      by simp
    have "addChunks_loop lib cks frames (Suc i) es (s, added) =
           (s\<lparr>index := Some g',
              metadata := metadata s @ map (IndexEntry_for cks frames) inserted,
              nextChunkId := nextChunkId s + length (filter (\<lambda>e. length e = dimension s) es)\<rparr>,
            added @ map fst inserted)"
      by (rule Cons.IH [OF Cons.prems(1,2) _ _ ins]) (use Cons.prems(3,4) in simp_all)
    with st False show ?thesis by simp
  next
    case True
    let ?n = "nextChunkId s"
    obtain ok g1 where ap: "addPoint lib g ?n e = (ok, g1)"
      by (cases "addPoint lib g ?n e")
    obtain g2 ins' where rest:
      "insert_points lib g1 (matching_items (dimension s) (Suc ?n) (Suc i) es) = (g2, ins')"
      by (cases "insert_points lib g1 (matching_items (dimension s) (Suc ?n) (Suc i) es)")
    from Cons.prems(5) True ap rest
    have res: "g' = g2" "inserted = (if ok then (?n, i) # ins' else ins')"
      by simp_all
    have nk: "?n \<notin> set (map fst (metadata s))"
      using Cons.prems(2) by blast
    define s1 where "s1 = (if ok
        then s\<lparr>nextChunkId := Suc ?n, index := Some g1,
               metadata := metadata s @ [IndexEntry_for cks frames (?n, i)]\<rparr>
        else s\<lparr>nextChunkId := Suc ?n, index := Some g1\<rparr>)"
    have st: "addChunks_step lib cks frames i e (s, added)
                = (s1, if ok then added @ [?n] else added)"
      using True Cons.prems(1,3,4) ap update_fresh [OF nk]
      by (simp add: addChunks_step_def Let_def IndexEntry_for_def s1_def)
    have s1: "index s1 = Some g1" "dimension s1 = dimension s" "nextChunkId s1 = Suc ?n"
      by (simp_all add: s1_def)
    have fresh1: "\<forall>k \<in> set (map fst (metadata s1)). k < nextChunkId s1"
      using Cons.prems(2) by (auto simp: s1_def IndexEntry_for_def less_Suc_eq)
    have rest1: "insert_points lib g1 (matching_items (dimension s1) (nextChunkId s1) (Suc i) es)
                   = (g2, ins')"
      using rest s1 by simp
    have "addChunks_loop lib cks frames (Suc i) es (s1, if ok then added @ [?n] else added) =
           (s1\<lparr>index := Some g2,
               metadata := metadata s1 @ map (IndexEntry_for cks frames) ins',
               nextChunkId := nextChunkId s1 + length (filter (\<lambda>e. length e = dimension s1) es)\<rparr>,
            (if ok then added @ [?n] else added) @ map fst ins')"
      by (rule Cons.IH [OF s1(1) fresh1 _ _ rest1]) (use Cons.prems(3,4) in simp_all)
    then show ?thesis
      using st True res by (simp add: s1_def)
  qed
qed


text \<open>
  C4. An \<^verbatim>\<open>addChunks\<close> call on an initialized manager with inputs of equal length, whose
  embeddings were returned, does not reject. An embedding of another dimension than the
  configured one is skipped, alone: every embedding of the configured dimension takes the
  next id and is passed with it to \<^verbatim>\<open>addPoint\<close>, in input order, on the graph the calls
  before it have left, and the manager ends with the graph the last call leaves. The array
  returned holds the ids of exactly those items whose \<^verbatim>\<open>addPoint\<close> completed, in input
  order, and these are the keys appended to the metadata map, each with the frame and the
  text length of its own position; the ids are strictly increasing. When no \<^verbatim>\<open>addPoint\<close>
  throws, the ids are the consecutive ones from \<^verbatim>\<open>nextChunkId\<close> on, and the entries are
  those of the positions whose embedding matches.
\<close>

theorem addChunks_skips_only_mismatched:
  assumes init: "index s = Some g"
      and inv: "manager_inv s"
      and emb: "cks \<noteq> []" "model s cks = Some embs"
      and len: "length frames = length cks" "length embs = length cks"
  shows "\<exists>ids s' g' inserted.
           addChunks lib s cks frames = (Inr ids, s')
           \<and> insert_points lib g (matching_items (dimension s) (nextChunkId s) 0 embs)
               = (g', inserted)
           \<and> ids = map fst inserted
           \<and> s' = s\<lparr>embed_calls := embed_calls s @ [cks],
                     index := Some g',
                     metadata := metadata s @ map (IndexEntry_for cks frames) inserted,
                     nextChunkId := nextChunkId s
                        + length (filter (\<lambda>e. length e = dimension s) embs)\<rparr>
           \<and> index s' = Some g'
           \<and> metadata s' = metadata s @ map (IndexEntry_for cks frames) inserted
           \<and> sorted_wrt (<) ids
           \<and> map fst (metadata s') = map fst (metadata s) @ ids
           \<and> nextChunkId s' = nextChunkId s + length (filter (\<lambda>e. length e = dimension s) embs)
           \<and> ((\<forall>g k v. fst (addPoint lib g k v)) \<longrightarrow>
                ids = [nextChunkId s ..< nextChunkId s']
                \<and> metadata s' = metadata s @ map (IndexEntry_for cks frames)
                     (enumerate (nextChunkId s)
                        [j \<leftarrow> [0..<length embs]. length (embs ! j) = dimension s]))"
proof -
  let ?s1 = "s\<lparr>embed_calls := embed_calls s @ [cks]\<rparr>"
  obtain g' inserted where ins:
    "insert_points lib g (matching_items (dimension s) (nextChunkId s) 0 embs) = (g', inserted)"
    by (cases "insert_points lib g (matching_items (dimension s) (nextChunkId s) 0 embs)")
  define s' where "s' = s\<lparr>embed_calls := embed_calls s @ [cks],
                     index := Some g',
                     metadata := metadata s @ map (IndexEntry_for cks frames) inserted,
                     nextChunkId := nextChunkId s
                        + length (filter (\<lambda>e. length e = dimension s) embs)\<rparr>"
  have fresh: "\<forall>k \<in> set (map fst (metadata ?s1)). k < nextChunkId ?s1"
    using inv by (simp add: manager_inv_iff)
  have ins1: "insert_points lib g (matching_items (dimension ?s1) (nextChunkId ?s1) 0 embs)
                = (g', inserted)"
    using ins by simp
  have "addChunks_loop lib cks frames 0 embs (?s1, []) =
           (?s1\<lparr>index := Some g',
              metadata := metadata ?s1 @ map (IndexEntry_for cks frames) inserted,
              nextChunkId := nextChunkId ?s1
                 + length (filter (\<lambda>e. length e = dimension ?s1) embs)\<rparr>,
            [] @ map fst inserted)"
    by (rule addChunks_loop_insert_points [OF _ fresh _ _ ins1]) (use init len in simp_all)
  then have loop: "addChunks_loop lib cks frames 0 embs (?s1, []) = (s', map fst inserted)"
    by (simp add: s'_def)
  with init emb have run: "addChunks lib s cks frames = (Inr (map fst inserted), s')"
    by (simp add: addChunks_def)
  have ok: "map fst inserted = [nextChunkId s ..< nextChunkId s']
            \<and> metadata s' = metadata s @ map (IndexEntry_for cks frames)
                 (enumerate (nextChunkId s)
                    [j \<leftarrow> [0..<length embs]. length (embs ! j) = dimension s])"
    if "\<forall>g k v. fst (addPoint lib g k v)"
    using addChunks_loop_all_ok [OF loop fresh that] init len by simp
  have proj: "index s' = Some g'"
    "metadata s' = metadata s @ map (IndexEntry_for cks frames) inserted"
    "nextChunkId s' = nextChunkId s + length (filter (\<lambda>e. length e = dimension s) embs)"
    by (simp_all add: s'_def)
  from addChunks_ids [OF run inv]
  have ids: "sorted_wrt (<) (map fst inserted)"
    "map fst (metadata s') = map fst (metadata s) @ map fst inserted"
    by simp_all
  show ?thesis
  proof (intro exI [of _ "map fst inserted"] exI [of _ s'] exI [of _ g'] exI [of _ inserted] conjI)
    show "addChunks lib s cks frames = (Inr (map fst inserted), s')" by (rule run)
    show "insert_points lib g (matching_items (dimension s) (nextChunkId s) 0 embs) = (g', inserted)"
      by (rule ins)
    show "s' = s\<lparr>embed_calls := embed_calls s @ [cks],
                     index := Some g',
                     metadata := metadata s @ map (IndexEntry_for cks frames) inserted,
                     nextChunkId := nextChunkId s
                        + length (filter (\<lambda>e. length e = dimension s) embs)\<rparr>"
      by (rule s'_def)
    show "(\<forall>g k v. fst (addPoint lib g k v)) \<longrightarrow>
                map fst inserted = [nextChunkId s ..< nextChunkId s']
                \<and> metadata s' = metadata s @ map (IndexEntry_for cks frames)
                     (enumerate (nextChunkId s)
                        [j \<leftarrow> [0..<length embs]. length (embs ! j) = dimension s])"
      using ok by blast
    show "map fst inserted = map fst inserted" by simp
    show "index s' = Some g'" by (rule proj(1))
    show "metadata s' = metadata s @ map (IndexEntry_for cks frames) inserted" by (rule proj(2))
    show "sorted_wrt (<) (map fst inserted)" by (rule ids(1))
    show "map fst (metadata s') = map fst (metadata s) @ map fst inserted" by (rule ids(2))
    show "nextChunkId s' = nextChunkId s + length (filter (\<lambda>e. length e = dimension s) embs)"
      by (rule proj(3))
  qed
qed

theorem addChunks_skips_only_mismatched_witness:
  "index example_manager = Some [] \<and> manager_inv example_manager
   \<and> example_model [''a'', ''bad'', ''ccc''] = Some [[1, 1], [0], [3, 1]]
   \<and> (\<exists>ids s'. addChunks example_hnsw example_manager [''a'', ''bad'', ''ccc''] [0, 1, 2]
                  = (Inr ids, s')
         \<and> ids = [0, 1] \<and> nextChunkId s' = 2
         \<and> index s' = Some [(0, [1, 1]), (1, [3, 1])]
         \<and> metadata s' = [(0, \<lparr>id_cm = 0, frame = Some 0, length_cm = 1\<rparr>),
                           (1, \<lparr>id_cm = 1, frame = Some 2, length_cm = 3\<rparr>)])
   \<and> example_model [''a'', ''bad'', ''ccc'', ''dd''] = Some [[1, 1], [0], [3, 1], [2, 1]]
   \<and> (\<exists>ids s'. addChunks example_hnsw_throwing example_manager
                    [''a'', ''bad'', ''ccc'', ''dd''] [0, 1, 2, 3] = (Inr ids, s')
         \<and> ids = [0, 2] \<and> nextChunkId s' = 3
         \<and> index s' = Some [(0, [1, 1]), (2, [2, 1])]
         \<and> metadata s' = [(0, \<lparr>id_cm = 0, frame = Some 0, length_cm = 1\<rparr>),
                           (2, \<lparr>id_cm = 2, frame = Some 3, length_cm = 2\<rparr>)])"
proof -
  have h1: "index example_manager = Some []"
    by (simp add: example_manager_def initIndex_def new_HNSWIndexManager_def example_hnsw_def)
  have h2: "manager_inv example_manager"
    by (simp add: manager_inv_def example_manager_def initIndex_def new_HNSWIndexManager_def)
  have h3: "model example_manager [''a'', ''bad'', ''ccc''] = Some [[1, 1], [0], [3, 1]]"
    "model example_manager [''a'', ''bad'', ''ccc'', ''dd''] = Some [[1, 1], [0], [3, 1], [2, 1]]"
    by (simp_all add: example_manager_def initIndex_def new_HNSWIndexManager_def example_model_def)
  have h3': "example_model [''a'', ''bad'', ''ccc''] = Some [[1, 1], [0], [3, 1]]"
    "example_model [''a'', ''bad'', ''ccc'', ''dd''] = Some [[1, 1], [0], [3, 1], [2, 1]]"
    by (simp_all add: example_model_def)
  have st: "nextChunkId example_manager = 0" "metadata example_manager = []"
    "dimension example_manager = 2"
    by (simp_all add: example_manager_def initIndex_def new_HNSWIndexManager_def)
  have pts: "insert_points example_hnsw [] (matching_items 2 0 0 [[1, 1], [0], [3, 1]])
               = ([(0, [1, 1]), (1, [3, 1])], [(0, 0), (1, 2)])"
    by (simp add: example_hnsw_def)
  have pts': "insert_points example_hnsw_throwing []
                (matching_items 2 0 0 [[1, 1], [0], [3, 1], [2, 1]])
               = ([(0, [1, 1]), (2, [2, 1])], [(0, 0), (2, 3)])"
    by (simp add: example_hnsw_throwing_def example_hnsw_def)
  have p: "[''a'', ''bad'', ''ccc''] \<noteq> []"
    "length [0, 1, 2 :: nat] = length [''a'', ''bad'', ''ccc'']"
    "length [[1, 1], [0], [3, 1 :: real]] = length [''a'', ''bad'', ''ccc'']"
    "[''a'', ''bad'', ''ccc'', ''dd''] \<noteq> []"
    "length [0, 1, 2, 3 :: nat] = length [''a'', ''bad'', ''ccc'', ''dd'']"
    "length [[1, 1], [0], [3, 1], [2, 1 :: real]] = length [''a'', ''bad'', ''ccc'', ''dd'']"
    by simp_all
  from addChunks_skips_only_mismatched [OF h1 h2 p(1) h3(1) p(2,3), of example_hnsw]
  obtain ids s' g' inserted where r:
    "addChunks example_hnsw example_manager [''a'', ''bad'', ''ccc''] [0, 1, 2] = (Inr ids, s')"
    "insert_points example_hnsw []
       (matching_items (dimension example_manager) (nextChunkId example_manager) 0
          [[1, 1], [0], [3, 1 :: real]]) = (g', inserted)"
    "ids = map fst inserted"
    "index s' = Some g'"
    "metadata s' = metadata example_manager
       @ map (IndexEntry_for [''a'', ''bad'', ''ccc''] [0, 1, 2]) inserted"
    "nextChunkId s' = nextChunkId example_manager
        + length (filter (\<lambda>e. length e = dimension example_manager)
            [[1, 1], [0], [3, 1 :: real]])"
    by blast
  from r(2) pts st have gi: "g' = [(0, [1, 1]), (1, [3, 1])]" "inserted = [(0, 0), (1, 2)]"
    by simp_all
  have a: "ids = [0, 1]" "nextChunkId s' = 2" "index s' = Some [(0, [1, 1]), (1, [3, 1])]"
    "metadata s' = [(0, \<lparr>id_cm = 0, frame = Some 0, length_cm = 1\<rparr>),
                    (1, \<lparr>id_cm = 1, frame = Some 2, length_cm = 3\<rparr>)]"
    using r(3,4,5,6) st gi by (simp_all add: IndexEntry_for_def)
  from addChunks_skips_only_mismatched [OF h1 h2 p(4) h3(2) p(5,6), of example_hnsw_throwing]
  obtain ids2 s2 g2 inserted2 where r2:
    "addChunks example_hnsw_throwing example_manager [''a'', ''bad'', ''ccc'', ''dd''] [0, 1, 2, 3]
       = (Inr ids2, s2)"
    "insert_points example_hnsw_throwing []
       (matching_items (dimension example_manager) (nextChunkId example_manager) 0
          [[1, 1], [0], [3, 1], [2, 1 :: real]]) = (g2, inserted2)"
    "ids2 = map fst inserted2"
    "index s2 = Some g2"
    "metadata s2 = metadata example_manager
       @ map (IndexEntry_for [''a'', ''bad'', ''ccc'', ''dd''] [0, 1, 2, 3]) inserted2"
    "nextChunkId s2 = nextChunkId example_manager
        + length (filter (\<lambda>e. length e = dimension example_manager)
            [[1, 1], [0], [3, 1], [2, 1 :: real]])"
    by blast
  from r2(2) pts' st have gi2: "g2 = [(0, [1, 1]), (2, [2, 1])]" "inserted2 = [(0, 0), (2, 3)]"
    by simp_all
  have b: "ids2 = [0, 2]" "nextChunkId s2 = 3" "index s2 = Some [(0, [1, 1]), (2, [2, 1])]"
    "metadata s2 = [(0, \<lparr>id_cm = 0, frame = Some 0, length_cm = 1\<rparr>),
                    (2, \<lparr>id_cm = 2, frame = Some 3, length_cm = 2\<rparr>)]"
    using r2(3,4,5,6) st gi2 by (simp_all add: IndexEntry_for_def)
  show ?thesis
    using h1 h2 h3' r(1) a r2(1) b by simp
qed

lemma fold_update_distinct:
  "distinct (map fst md) \<Longrightarrow> set (map fst acc) \<inter> set (map fst md) = {}
     \<Longrightarrow> fold (\<lambda>(k, v) m. AList.update k v m) md acc = acc @ md"
proof (induction md arbitrary: acc)
  case Nil
  then show ?case by simp
next
  case (Cons kv md)
  obtain k v where kv: "kv = (k, v)" by (cases kv)
  have "k \<notin> set (map fst acc)" using Cons.prems(2) kv by auto
  then have upd: "AList.update k v acc = acc @ [(k, v)]" by (rule update_fresh)
  have "fold (\<lambda>(k, v) m. AList.update k v m) md (acc @ [(k, v)]) = (acc @ [(k, v)]) @ md"
    using Cons.prems kv by (intro Cons.IH) auto
  then show ?case using kv upd by simp
qed

lemma new_Map_distinct: "distinct (map fst md) \<Longrightarrow> new_Map md = md"
  using fold_update_distinct [of md "[]"] by (simp add: new_Map_def)

lemma save_then_load:
  assumes init: "index s = Some g"
      and inv: "manager_inv s"
      and same_path: "resolvePath p (config_index_path t) = resolvePath p (config_index_path s)"
  shows "\<exists>fs'. save lib s p fs = (Inr (), fs')
           \<and> fs' (resolvePath p (config_index_path s) @ ''.meta.json'')
               = Some (MetaJson (nextChunkId s) (metadata s))
           \<and> metadata (snd (load lib t p fs')) = metadata s
           \<and> nextChunkId (snd (load lib t p fs')) = nextChunkId s
           \<and> (\<forall>g'. fromJSON lib (toJSON lib g) = Some g' \<longrightarrow>
                 load lib t p fs' = (Inr (), t\<lparr>metadata := metadata s, nextChunkId := nextChunkId s,
                                              index := Some g'\<rparr>))"
proof -
  define base where "base = resolvePath p (config_index_path s)"
  define fs' where "fs' = (fs(base @ ''.hnsw.json'' \<mapsto> HnswJson (toJSON lib g)))
                             (base @ ''.meta.json'' \<mapsto> MetaJson (nextChunkId s) (metadata s))"
  have sv: "save lib s p fs = (Inr (), fs')"
    using init by (simp add: save_def Let_def base_def fs'_def)
  have meta: "fs' (base @ ''.meta.json'') = Some (MetaJson (nextChunkId s) (metadata s))"
    by (simp add: fs'_def)
  have graph: "fs' (base @ ''.hnsw.json'') = Some (HnswJson (toJSON lib g))"
    by (simp add: fs'_def)
  have nm: "new_Map (metadata s) = metadata s"
    using inv by (simp add: manager_inv_def new_Map_distinct)
  have ld: "load lib t p fs' =
      (case fromJSON lib (toJSON lib g) of
         Some g' \<Rightarrow> (Inr (), t\<lparr>metadata := metadata s, nextChunkId := nextChunkId s, index := Some g'\<rparr>)
       | None \<Rightarrow> (Inl IndexFileCorrupt, t\<lparr>metadata := metadata s, nextChunkId := nextChunkId s\<rparr>))"
    using meta graph same_path by (simp add: load_def Let_def base_def nm split: option.splits)
  show ?thesis
    using sv meta ld by (auto simp: base_def split: option.splits)
qed

text \<open>
  C5. For an initialized manager, \<^verbatim>\<open>save(p)\<close> completes and writes the metadata file
  \<^verbatim>\<open>{nextChunkId, metadata}\<close> with the entries of the map in order; a \<^verbatim>\<open>load(p)\<close> that
  follows, into the same or another manager resolving the same path, leaves the metadata
  map and \<^verbatim>\<open>nextChunkId\<close> equal to the saved ones (they are assigned before the graph file
  is read, so this holds even if rebuilding the graph throws), and when the graph is
  rebuilt the call completes.
\<close>

theorem save_load_roundtrip:
  assumes init: "index s = Some g"
      and inv: "manager_inv s"
      and same_path: "resolvePath p (config_index_path t) = resolvePath p (config_index_path s)"
  shows "\<exists>fs'. save lib s p fs = (Inr (), fs')
           \<and> fs' (resolvePath p (config_index_path s) @ ''.meta.json'')
               = Some (MetaJson (nextChunkId s) (metadata s))
           \<and> metadata (snd (load lib t p fs')) = metadata s
           \<and> nextChunkId (snd (load lib t p fs')) = nextChunkId s
           \<and> (\<forall>g'. fromJSON lib (toJSON lib g) = Some g' \<longrightarrow>
                 load lib t p fs' = (Inr (), t\<lparr>metadata := metadata s, nextChunkId := nextChunkId s,
                                              index := Some g'\<rparr>))"
  using save_then_load [OF assms] .

lemma example_populated_eq:
  "example_populated =
     \<lparr>model = example_model, embed_calls = [[''a'', ''bad'', ''ccc'']], dimension = 2,
      index = Some [(0, [1, 1]), (1, [3, 1])],
      metadata = [(0, \<lparr>id_cm = 0, frame = Some 0, length_cm = 1\<rparr>),
                  (1, \<lparr>id_cm = 1, frame = Some 2, length_cm = 3\<rparr>)],
      nextChunkId = 2, config_index_path = Some ''idx''\<rparr>"
  by (simp add: example_populated_def addChunks_def addChunks_step_def example_manager_def
      initIndex_def new_HNSWIndexManager_def example_hnsw_def example_model_def Let_def)

theorem save_load_roundtrip_witness:
  "index example_populated = Some [(0, [1, 1]), (1, [3, 1])] \<and> manager_inv example_populated
   \<and> (\<exists>fs'. save example_hnsw example_populated (Some ''p'') Map.empty = (Inr (), fs')
         \<and> fs' ''p.meta.json''
             = Some (MetaJson 2 [(0, \<lparr>id_cm = 0, frame = Some 0, length_cm = 1\<rparr>),
                                 (1, \<lparr>id_cm = 1, frame = Some 2, length_cm = 3\<rparr>)])
         \<and> metadata (snd (load example_hnsw (new_HNSWIndexManager example_model 2 None) (Some ''p'') fs'))
             = metadata example_populated
         \<and> nextChunkId (snd (load example_hnsw (new_HNSWIndexManager example_model 2 None) (Some ''p'') fs'))
             = 2)"
proof -
  have h1: "index example_populated = Some [(0, [1, 1]), (1, [3, 1])]"
    by (simp add: example_populated_eq)
  have h2: "manager_inv example_populated"
    by (simp add: example_populated_eq manager_inv_def)
  have h3: "resolvePath (Some ''p'') (config_index_path (new_HNSWIndexManager example_model 2 None
                :: (nat \<times> real list) list HNSWIndexManager))
            = resolvePath (Some ''p'') (config_index_path example_populated)"
    by (simp add: resolvePath_def)
  have r: "resolvePath (Some ''p'') c = ''p''" for c
    by (simp add: resolvePath_def)
  have m: "metadata example_populated = [(0, \<lparr>id_cm = 0, frame = Some 0, length_cm = 1\<rparr>),
                                        (1, \<lparr>id_cm = 1, frame = Some 2, length_cm = 3\<rparr>)]"
    "nextChunkId example_populated = 2"
    by (simp_all add: example_populated_eq)
  from save_load_roundtrip [OF h1 h2 h3, of example_hnsw Map.empty]
  show ?thesis
    using h1 h2 by (auto simp: r m)
qed

lemma search_join_Cons:
  "search_join md ((i, d) # hits) =
     (case map_of md i of
        Some meta \<Rightarrow> \<lparr>chunk_id = i, metadata_sr = meta, distance = d\<rparr> # search_join md hits
      | None \<Rightarrow> search_join md hits)"
  by (simp add: search_join_def split: option.splits)

lemma search_join_facts:
  "length (search_join md hits) \<le> length hits
   \<and> set (map distance (search_join md hits)) \<subseteq> set (map snd hits)
   \<and> (sorted (map snd hits) \<longrightarrow> sorted (map distance (search_join md hits)))
   \<and> list_all (\<lambda>r. map_of md (chunk_id r) = Some (metadata_sr r)) (search_join md hits)"
proof (induction hits)
  case Nil
  then show ?case by (simp add: search_join_def)
next
  case (Cons h hits)
  obtain i d where h: "h = (i, d)" by (cases h)
  show ?case
  proof (cases "map_of md i")
    case None
    then show ?thesis using Cons h by (auto simp: search_join_Cons)
  next
    case (Some meta)
    have sub: "distance x \<in> snd ` set hits" if "x \<in> set (search_join md hits)" for x
      using Cons that by auto
    have "d \<le> distance x" if "sorted (map snd (h # hits))" "x \<in> set (search_join md hits)" for x
    proof -
      from sub [OF that(2)] obtain y where "y \<in> set hits" "distance x = snd y" by blast
      with that(1) h show ?thesis by auto
    qed
    then have "sorted (map snd (h # hits)) \<longrightarrow> sorted (map distance (search_join md (h # hits)))"
      using Cons Some h by (auto simp: search_join_Cons)
    then show ?thesis using Cons Some h by (auto simp: search_join_Cons)
  qed
qed

text \<open>
  What \<^verbatim>\<open>search\<close> does with the hits of the graph: it keeps those that have an entry in
  the metadata map, in the order of the graph, each with the entry stored under its id and
  with the score of the graph in the field \<^verbatim>\<open>distance\<close>. Nothing is sorted, cut or
  tested for its sign.
\<close>

lemma search_results_from_graph:
  assumes run: "search lib s q k = (Inr results, s')"
  shows "list_all (\<lambda>r. map_of (metadata s') (chunk_id r) = Some (metadata_sr r)) results
         \<and> (results = []
            \<or> (\<exists>g qe. index s = Some g
                  \<and> results = search_join (metadata s) (searchKNN lib g qe k)))"
proof -
  from run obtain g where g: "index s = Some g"
    by (cases "index s") (auto simp: search_def)
  have md: "metadata s' = metadata s"
    using run g by (auto simp: search_def Let_def split: if_splits option.splits list.splits)
  consider (none) "results = []"
    | (hits) qe where "results = search_join (metadata s) (searchKNN lib g qe k)"
    using run g by (auto simp: search_def Let_def split: if_splits option.splits list.splits)
  then show ?thesis
  proof cases
    case none
    then show ?thesis by simp
  next
    case hits
    with search_join_facts [of "metadata s" "searchKNN lib g qe k"] md g
    show ?thesis by auto
  qed
qed




lemma addChunks_Inl:
  assumes "addChunks lib s cks frames = (Inl e, s')"
  shows "metadata s' = metadata s \<and> nextChunkId s' = nextChunkId s"
  using assms
  by (auto simp: addChunks_def Let_def split: option.splits if_splits prod.splits)

lemma addChunks_calls_general:
  assumes "fold (addChunks_call lib) calls (acc, s) = (acc', s')"
      and "manager_inv s"
  shows "\<exists>new. acc' = acc @ new \<and> sorted_wrt (<) new
           \<and> (\<forall>k \<in> set new. nextChunkId s \<le> k \<and> k < nextChunkId s')
           \<and> manager_inv s' \<and> nextChunkId s \<le> nextChunkId s'
           \<and> dimension s' = dimension s \<and> model s' = model s
           \<and> config_index_path s' = config_index_path s
           \<and> (index s \<noteq> None \<longrightarrow> index s' \<noteq> None)"
  using assms
proof (induction calls arbitrary: acc s)
  case Nil
  then show ?case by simp
next
  case (Cons call calls)
  obtain res s1 where call: "addChunks lib s (fst call) (snd call) = (res, s1)"
    by (cases "addChunks lib s (fst call) (snd call)")
  note facts = addChunks_facts [OF call]
  obtain ids where step: "addChunks_call lib call (acc, s) = (acc @ ids, s1)"
    and ids: "sorted_wrt (<) ids" "\<forall>k \<in> set ids. nextChunkId s \<le> k \<and> k < nextChunkId s1"
    and inv1: "manager_inv s1"
  proof (cases res)
    case (Inl e)
    with call addChunks_Inl [of lib s "fst call" "snd call" e s1] Cons.prems(2)
    have "addChunks_call lib call (acc, s) = (acc @ [], s1)" "manager_inv s1"
      by (simp_all add: addChunks_call_def manager_inv_def)
    then show ?thesis using that [of "[]"] by simp
  next
    case (Inr ids)
    with call have "addChunks_call lib call (acc, s) = (acc @ ids, s1)"
      by (simp add: addChunks_call_def)
    with addChunks_ids [of lib s "fst call" "snd call" ids s1] call Inr Cons.prems(2)
    show ?thesis using that [of ids] by simp
  qed
  from Cons.prems(1) step have "fold (addChunks_call lib) calls (acc @ ids, s1) = (acc', s')"
    by simp
  from Cons.IH [OF this inv1] obtain new where
    new: "acc' = (acc @ ids) @ new" "sorted_wrt (<) new"
      "\<forall>k \<in> set new. nextChunkId s1 \<le> k \<and> k < nextChunkId s'"
      "manager_inv s'" "nextChunkId s1 \<le> nextChunkId s'"
      "dimension s' = dimension s1" "model s' = model s1"
      "config_index_path s' = config_index_path s1"
      "index s1 \<noteq> None \<longrightarrow> index s' \<noteq> None"
    by blast
  show ?case
  proof (intro exI [of _ "ids @ new"] conjI)
    show "acc' = acc @ ids @ new" using new(1) by simp
    show "sorted_wrt (<) (ids @ new)"
      using ids new(2,3) by (fastforce simp: sorted_wrt_append)
    show "\<forall>k\<in>set (ids @ new). nextChunkId s \<le> k \<and> k < nextChunkId s'"
      using ids(2) new(3,5) facts by fastforce
  qed (use new facts in auto)
qed

lemma addChunks_all_ok:
  assumes init: "index s \<noteq> None"
      and inv: "manager_inv s"
      and emb: "embeds_at (model s) (dimension s)"
      and ok: "\<forall>g k v. fst (addPoint lib g k v)"
      and len: "length frames = length cks"
  shows "\<exists>s'. addChunks lib s cks frames
                 = (Inr [nextChunkId s ..< nextChunkId s + length cks], s')
           \<and> nextChunkId s' = nextChunkId s + length cks"
proof (cases "cks = []")
  case True
  then show ?thesis using init by (auto simp: addChunks_def)
next
  case False
  from emb obtain embs where embs: "model s cks = Some embs" "length embs = length cks"
    "list_all (\<lambda>e. length e = dimension s) embs"
    unfolding embeds_at_def by blast
  let ?s1 = "s\<lparr>embed_calls := embed_calls s @ [cks]\<rparr>"
  obtain s' ids where loop: "addChunks_loop lib cks frames 0 embs (?s1, []) = (s', ids)"
    by (cases "addChunks_loop lib cks frames 0 embs (?s1, [])")
  with init False embs(1) have run: "addChunks lib s cks frames = (Inr ids, s')"
    by (auto simp: addChunks_def)
  have fresh: "\<forall>k \<in> set (map fst (metadata ?s1)). k < nextChunkId ?s1"
    using inv by (simp add: manager_inv_iff)
  have all: "filter (\<lambda>e. length e = dimension s) embs = embs"
    using embs(3) by (simp add: list_all_iff)
  have n': "nextChunkId s' = nextChunkId s + length cks"
    using addChunks_loop_frame [OF loop] all embs(2) by simp
  from addChunks_loop_all_ok [OF loop fresh ok] init len embs(2)
  have "ids = [nextChunkId s ..< nextChunkId s']" by simp
  with run n' show ?thesis by simp
qed

lemma addChunks_calls_all_ok:
  assumes "fold (addChunks_call lib) calls (acc, s) = (acc', s')"
      and "index s \<noteq> None" "manager_inv s" "embeds_at (model s) (dimension s)"
      and "\<forall>g k v. fst (addPoint lib g k v)"
      and "list_all (\<lambda>call. length (snd call) = length (fst call)) calls"
  shows "acc' = acc @ [nextChunkId s ..< nextChunkId s + length (concat (map fst calls))]
         \<and> nextChunkId s' = nextChunkId s + length (concat (map fst calls))"
  using assms
proof (induction calls arbitrary: acc s)
  case Nil
  then show ?case by simp
next
  case (Cons call calls)
  from Cons.prems(6) have len: "length (snd call) = length (fst call)" by simp
  from addChunks_all_ok [OF Cons.prems(2,3,4,5) len]
  obtain s1 where call: "addChunks lib s (fst call) (snd call)
          = (Inr [nextChunkId s ..< nextChunkId s + length (fst call)], s1)"
    and n1: "nextChunkId s1 = nextChunkId s + length (fst call)"
    by blast
  note facts = addChunks_facts [OF call] addChunks_ids [OF call Cons.prems(3)]
  from call have step: "addChunks_call lib call (acc, s)
      = (acc @ [nextChunkId s ..< nextChunkId s + length (fst call)], s1)"
    by (simp add: addChunks_call_def)
  with Cons.prems(1)
  have run: "fold (addChunks_call lib) calls
      (acc @ [nextChunkId s ..< nextChunkId s + length (fst call)], s1) = (acc', s')"
    by simp
  have ih: "acc' = (acc @ [nextChunkId s ..< nextChunkId s + length (fst call)])
                @ [nextChunkId s1 ..< nextChunkId s1 + length (concat (map fst calls))]"
    "nextChunkId s' = nextChunkId s1 + length (concat (map fst calls))"
    using Cons.prems(2,4,5,6) facts by (intro conjunct1 [OF Cons.IH [OF run]] conjunct2 [OF Cons.IH [OF run]]; auto)+
  have app: "[nextChunkId s ..< nextChunkId s + length (fst call)]
       @ [nextChunkId s + length (fst call)
            ..< nextChunkId s + length (fst call) + length (concat (map fst calls))]
     = [nextChunkId s ..< nextChunkId s + length (fst call) + length (concat (map fst calls))]"
    using upt_add_eq_append [of "nextChunkId s" "nextChunkId s + length (fst call)"
        "length (concat (map fst calls))"]
    by simp
  have "acc' = acc @ [nextChunkId s ..< nextChunkId s + length (fst call) + length (concat (map fst calls))]"
    using ih(1) app by (simp add: n1)
  moreover have "nextChunkId s' = nextChunkId s + length (fst call) + length (concat (map fst calls))"
    using ih(2) by (simp add: n1)
  ultimately show ?case by (simp add: add.assoc)
qed

text \<open>
  C2. Run any sequence of \<^verbatim>\<open>addChunks\<close> calls on a fresh initialized manager, then
  \<^verbatim>\<open>save(p)\<close>, then \<^verbatim>\<open>load(p)\<close> into the same or another manager resolving the same path,
  then any further sequence of calls. The ids returned before and after the reload form
  one strictly increasing list: every later id is greater than every earlier one and none
  is handed out twice. The reload restores \<^verbatim>\<open>nextChunkId\<close> and the metadata map exactly.
  When every embedding succeeds at the configured dimension, no \<^verbatim>\<open>addPoint\<close> throws and
  each call has as many frames as texts, the ids are exactly 0, 1, 2, ... in order, and go
  on from the restored \<^verbatim>\<open>nextChunkId\<close> after the reload.
\<close>

theorem addChunks_ids_increasing_across_reload:
  assumes fresh: "nextChunkId s0 = 0" "metadata s0 = []" "index s0 = Some g"
      and same_path: "resolvePath p (config_index_path t) = resolvePath p (config_index_path s0)"
  shows "let (ids1, s1) = addChunks_calls lib calls1 s0;
             fs' = snd (save lib s1 p fs);
             s2 = snd (load lib t p fs');
             (ids2, s3) = addChunks_calls lib calls2 s2
         in sorted_wrt (<) (ids1 @ ids2)
            \<and> nextChunkId s2 = nextChunkId s1 \<and> metadata s2 = metadata s1
            \<and> list_all (\<lambda>k. k < nextChunkId s1) ids1
            \<and> list_all (\<lambda>k. nextChunkId s1 \<le> k) ids2
            \<and> (embeds_at (model s0) (dimension s0) \<and> (\<forall>g k v. fst (addPoint lib g k v))
                 \<and> list_all (\<lambda>call. length (snd call) = length (fst call)) (calls1 @ calls2)
               \<longrightarrow> ids1 = [0 ..< length (concat (map fst calls1))]
                   \<and> (model t = model s0 \<and> dimension t = dimension s0 \<and> index s2 \<noteq> None
                        \<longrightarrow> ids2 = [length (concat (map fst calls1))
                                     ..< length (concat (map fst calls1))
                                         + length (concat (map fst calls2))]))"
proof -
  obtain ids1 s1 where r1: "addChunks_calls lib calls1 s0 = (ids1, s1)"
    by (cases "addChunks_calls lib calls1 s0")
  define fs' where "fs' = snd (save lib s1 p fs)"
  define s2 where "s2 = snd (load lib t p fs')"
  obtain ids2 s3 where r2: "addChunks_calls lib calls2 s2 = (ids2, s3)"
    by (cases "addChunks_calls lib calls2 s2")
  have inv0: "manager_inv s0"
    using fresh by (simp add: manager_inv_def)
  from r1 have f1: "fold (addChunks_call lib) calls1 ([], s0) = (ids1, s1)"
    by (simp add: addChunks_calls_def)
  from addChunks_calls_general [OF f1 inv0] fresh
  have g1: "sorted_wrt (<) ids1" "\<forall>k \<in> set ids1. k < nextChunkId s1" "manager_inv s1"
    "dimension s1 = dimension s0" "model s1 = model s0"
    "config_index_path s1 = config_index_path s0" "index s1 \<noteq> None"
    by auto
  from g1(7) obtain g1' where i1: "index s1 = Some g1'" by blast
  from save_then_load [OF i1 g1(3), of p t lib fs] same_path g1(6)
  have rt: "nextChunkId s2 = nextChunkId s1" "metadata s2 = metadata s1"
    by (auto simp: s2_def fs'_def)
  have inv2: "manager_inv s2"
    using g1(3) rt by (simp add: manager_inv_def)
  from r2 have f2: "fold (addChunks_call lib) calls2 ([], s2) = (ids2, s3)"
    by (simp add: addChunks_calls_def)
  from addChunks_calls_general [OF f2 inv2] rt
  have g2: "sorted_wrt (<) ids2" "\<forall>k \<in> set ids2. nextChunkId s1 \<le> k"
    by auto
  have srt: "sorted_wrt (<) (ids1 @ ids2)"
    using g1(1,2) g2 by (fastforce simp: sorted_wrt_append)
  have exact1: "ids1 = [0 ..< length (concat (map fst calls1))]"
    if "embeds_at (model s0) (dimension s0)" "\<forall>g k v. fst (addPoint lib g k v)"
      "list_all (\<lambda>call. length (snd call) = length (fst call)) calls1"
    using addChunks_calls_all_ok [OF f1 _ inv0 that] fresh by simp
  have n1: "nextChunkId s1 = length (concat (map fst calls1))"
    if "embeds_at (model s0) (dimension s0)" "\<forall>g k v. fst (addPoint lib g k v)"
      "list_all (\<lambda>call. length (snd call) = length (fst call)) calls1"
    using addChunks_calls_all_ok [OF f1 _ inv0 that] fresh by simp
  have exact2: "ids2 = [length (concat (map fst calls1))
                        ..< length (concat (map fst calls1)) + length (concat (map fst calls2))]"
    if "embeds_at (model s0) (dimension s0)" "\<forall>g k v. fst (addPoint lib g k v)"
      "list_all (\<lambda>call. length (snd call) = length (fst call)) calls1"
      "list_all (\<lambda>call. length (snd call) = length (fst call)) calls2"
      "model t = model s0" "dimension t = dimension s0" "index s2 \<noteq> None"
  proof -
    have "model s2 = model t" "dimension s2 = dimension t"
      by (auto simp: s2_def load_def Let_def split: option.splits file_content.splits)
    with that have "embeds_at (model s2) (dimension s2)" by simp
    from addChunks_calls_all_ok [OF f2 that(7) inv2 this that(2,4)] rt n1 [OF that(1,2,3)]
    show ?thesis by simp
  qed
  show ?thesis
    using srt rt g1(2) g2(2) exact1 exact2
    by (simp add: r1 r2 fs'_def [symmetric] s2_def [symmetric] list_all_iff)
qed


lemma example_fresh_eq:
  "example_fresh =
     \<lparr>model = example_embedder, embed_calls = [], dimension = 2, index = Some [],
      metadata = [], nextChunkId = 0, config_index_path = Some ''idx''\<rparr>"
  by (simp add: example_fresh_def initIndex_def new_HNSWIndexManager_def example_hnsw_def)

lemma example_embedder_ok: "embeds_at example_embedder 2"
  by (simp add: embeds_at_def example_embedder_def list_all_iff)

theorem addChunks_ids_increasing_across_reload_witness:
  "nextChunkId example_fresh = 0 \<and> metadata example_fresh = [] \<and> index example_fresh = Some []
   \<and> embeds_at example_embedder 2
   \<and> (let (ids1, s1) = addChunks_calls example_hnsw [([''a'', ''bb''], [0, 1])] example_fresh;
           fs' = snd (save example_hnsw s1 (Some ''p'') Map.empty);
           s2 = snd (load example_hnsw (new_HNSWIndexManager example_embedder 2 None) (Some ''p'') fs');
           (ids2, s3) = addChunks_calls example_hnsw [([''c''], [2])] s2
       in ids1 = [0, 1] \<and> ids2 = [2] \<and> nextChunkId s2 = nextChunkId s1
          \<and> sorted_wrt (<) (ids1 @ ids2))"
proof -
  let ?t = "new_HNSWIndexManager example_embedder 2 None :: (nat \<times> real list) list HNSWIndexManager"
  have h: "nextChunkId example_fresh = 0" "metadata example_fresh = []"
    "index example_fresh = Some []"
    by (simp_all add: example_fresh_eq)
  have hp: "resolvePath (Some ''p'') (config_index_path ?t)
            = resolvePath (Some ''p'') (config_index_path example_fresh)"
    by (simp add: resolvePath_def)
  have ok: "\<forall>g k v. fst (addPoint example_hnsw g k v)"
    by (simp add: example_hnsw_def)
  have md: "model example_fresh = example_embedder" "dimension example_fresh = 2"
    "model ?t = example_embedder" "dimension ?t = 2"
    by (simp_all add: example_fresh_eq new_HNSWIndexManager_def)
  have loaded: "index (snd (load example_hnsw ?t (Some ''p'')
        (snd (save example_hnsw (snd (addChunks_calls example_hnsw [([''a'', ''bb''], [0, 1])] example_fresh))
            (Some ''p'') Map.empty)))) \<noteq> None"
    by (simp add: addChunks_calls_def addChunks_call_def addChunks_def addChunks_step_def
        example_fresh_eq example_hnsw_def example_embedder_def Let_def save_def load_def
        resolvePath_def new_HNSWIndexManager_def new_Map_def)
  from addChunks_ids_increasing_across_reload [OF h hp,
      of example_hnsw "[([''a'', ''bb''], [0, 1])]" Map.empty "[([''c''], [2])]"]
  show ?thesis
    using h example_embedder_ok ok md loaded
    by (simp add: Let_def split_def upt_rec)
qed

section \<open>Properties of the encoder\<close>

text \<open>
  C1. \<^verbatim>\<open>buildVideo\<close> on three chunks, with every QR generation and every embedding
  succeeding. Each chunk is added to the index in the frame loop and all of them are added
  again after the video is assembled, so the index ends with six entries, two for each
  frame, and not with three.
\<close>

theorem buildVideo_three_chunks_six_entries:
  "(case buildVideo example_boundary example_encoder Map.empty of
      (res, enc, fs) \<Rightarrow>
        (res, chunks enc, map (\<lambda>(k, m). (k, frame m)) (metadata (index_enc enc))))
   = (Inr \<lparr>videoBuffer_res = ''mp4'', frameCount = 3\<rparr>, [],
      [(0, Some 0), (1, Some 1), (2, Some 2), (3, Some 0), (4, Some 1), (5, Some 2)])"
  by (simp add: buildVideo_def buildVideo_frame_def generateQrBuffer_def example_boundary_def
      example_encoder_def example_hnsw_def example_embedder_def initIndex_def
      new_HNSWIndexManager_def addChunks_def addChunks_step_def save_def Let_def upt_rec)

section \<open>Properties of the frame payload\<close>

lemma fold_snoc: "fold (\<lambda>b acc. acc @ [b]) xs ys = ys @ xs"
  by (induction xs arbitrary: ys) auto

lemma processQrText_plain: "take 3 s \<noteq> ''GZ:'' \<Longrightarrow> processQrText cd s = s"
  by (simp add: processQrText_def)

lemma processQrText_processedData:
  assumes "codec_inverts cd"
      and "100 < length s \<and> gzip cd s \<noteq> None \<or> take 3 s \<noteq> ''GZ:''"
  shows "processQrText cd (processedData cd s) = s"
proof (cases "100 < length s \<and> gzip cd s \<noteq> None")
  case True
  then obtain z where z: "gzip cd s = Some z" by blast
  with assms(1) have "atob cd (btoa cd z) = Some z" "ungzip cd z = Some s"
    by (simp_all add: codec_inverts_def)
  with True z show ?thesis
    by (simp add: processedData_def processQrText_def fold_snoc)
next
  case False
  with assms(2) have plain: "take 3 s \<noteq> ''GZ:''" by blast
  from False have "processedData cd s = s"
    by (auto simp: processedData_def)
  with plain show ?thesis by (simp add: processQrText_plain)
qed






lemma chunkPayload_not_GZ: "take 3 (chunkPayload chunk i) \<noteq> ''GZ:''"
proof -
  have "\<exists>rest. chunkPayload chunk i = CHR ''{'' # rest"
    unfolding chunkPayload_def by simp
  then obtain rest where "chunkPayload chunk i = CHR ''{'' # rest" ..
  then show ?thesis by simp
qed

lemma chunkPayload_recovered:
  "codec_inverts cd \<Longrightarrow> processQrText cd (processedData cd (chunkPayload chunk i)) = chunkPayload chunk i"
  by (rule processQrText_processedData) (simp_all add: chunkPayload_not_GZ)

section \<open>Properties of the retriever\<close>





lemma frame_dirs_ok_Cons:
  "frame_dirs_ok ext r (h # hits) \<longleftrightarrow>
     (map_of (frameCache r) (frame (metadata_sr h)) = None \<longrightarrow> fs_mkdir ext (frame (metadata_sr h)))
     \<and> frame_dirs_ok ext r hits"
  by (simp add: frame_dirs_ok_def)

lemma frame_dirs_ok_append:
  "frame_dirs_ok ext r (xs @ ys) \<longleftrightarrow> frame_dirs_ok ext r xs \<and> frame_dirs_ok ext r ys"
  by (simp add: frame_dirs_ok_def)













section \<open>Properties of the chat\<close>

lemma getContext_frame:
  "conversationHistory (snd (getContext ext c q)) = conversationHistory c
   \<and> llmClient (snd (getContext ext c q)) = llmClient c
   \<and> systemPrompt (snd (getContext ext c q)) = systemPrompt c
   \<and> maxHistoryLength (snd (getContext ext c q)) = maxHistoryLength c"
  by (simp add: getContext_def split: prod.splits sum.splits)

text \<open>
  \<^verbatim>\<open>chat\<close> answers from the retrieved context alone: whatever the message and whether or not
  an LLM client is configured, the conversation history is left as it was, so no turn is
  ever recorded and no prompt is composed from a system prompt and a history.
\<close>

lemma chat_leaves_history:
  "conversationHistory (snd (chat ext c message)) = conversationHistory c
   \<and> llmClient (snd (chat ext c message)) = llmClient c
   \<and> systemPrompt (snd (chat ext c message)) = systemPrompt c"
  using getContext_frame [of ext c message]
  by (cases "getContext ext c message") (auto simp: chat_def split: sum.splits)

text \<open>
  C9. Two turns of a session with an LLM client and \<^verbatim>\<open>maxHistoryLength = 2\<close>: each turn
  returns the retrieved context as the response, and the history is empty after both, where
  the claim has the second prompt carry the first user message and the first reply.
\<close>

theorem chat_two_turns_history_empty:
  "(case chat example_boundary example_chat ''message 1'' of
      (res1, c1) \<Rightarrow>
        (case chat example_boundary c1 ''message 2'' of
           (res2, c2) \<Rightarrow> (res1, conversationHistory c1, res2, conversationHistory c2)))
   = (Inr (''Context from video:'' @ [CHR 0x0A] @ ''[Frame 8 decode error]''
             @ [CHR 0x0A, CHR 0x0A] @ ''[Frame 7 not readable]''), [],
      Inr (''Context from video:'' @ [CHR 0x0A] @ ''[Frame 8 decode error]''
             @ [CHR 0x0A, CHR 0x0A] @ ''[Frame 7 not readable]''), [])"
  by (simp add: chat_def getContext_def search_retriever_def search_decode_all_def
      search_decode_def
      decodeSingleFrame_def extractFrameAndDecode_def decodedFrame_def frame_text_def
      notReadable_def decodeError_def show_frame_def processQrText_def search_def
      example_chat_def example_boundary_def example_retriever_def example_hnsw_def
      example_embedder_def example_codec_def search_join_def Let_def trim_def isWhitespace_def)

section \<open>Properties of the chunker\<close>

lemma length_trim_le: "length (trim s) \<le> length s"
proof -
  have "length (trim s) \<le> length (rev (dropWhile isWhitespace s))"
    unfolding trim_def using length_dropWhile_le [of isWhitespace "rev (dropWhile isWhitespace s)"]
    by simp
  also have "\<dots> \<le> length s" by (simp add: length_dropWhile_le)
  finally show ?thesis .
qed

lemma last_dropWhile: "dropWhile P xs \<noteq> [] \<Longrightarrow> last (dropWhile P xs) = last xs"
  by (induction xs) (auto split: if_splits)

lemma trim_ends:
  assumes "trim s \<noteq> []"
  shows "\<not> isWhitespace (hd (trim s)) \<and> \<not> isWhitespace (last (trim s))"
proof -
  define y where "y = dropWhile isWhitespace s"
  define z where "z = dropWhile isWhitespace (rev y)"
  have tz: "trim s = rev z" by (simp add: trim_def y_def z_def)
  with assms have z: "z \<noteq> []" by simp
  then have y: "y \<noteq> []" by (auto simp: z_def)
  have "\<not> isWhitespace (hd z)" using z unfolding z_def by (rule hd_dropWhile)
  moreover have "last z = last (rev y)" using z unfolding z_def by (rule last_dropWhile)
  moreover have "\<not> isWhitespace (hd y)" using y unfolding y_def by (rule hd_dropWhile)
  ultimately show ?thesis
    using z y by (simp add: tz hd_rev last_rev)
qed

lemma trim_id:
  assumes "x \<noteq> []" "\<not> isWhitespace (hd x)" "\<not> isWhitespace (last x)"
  shows "trim x = x"
proof -
  have "dropWhile isWhitespace x = x"
    using assms by (simp add: dropWhile_eq_self_iff)
  moreover have "dropWhile isWhitespace (rev x) = rev x"
    using assms by (simp add: dropWhile_eq_self_iff hd_rev)
  ultimately show ?thesis by (simp add: trim_def)
qed

lemma in_dropWhile: "c \<in> set xs \<Longrightarrow> \<not> P c \<Longrightarrow> c \<in> set (dropWhile P xs)"
  by (induction xs) auto

lemma trim_nonblank_iff: "trim s \<noteq> [] \<longleftrightarrow> (\<exists>c \<in> set s. \<not> isWhitespace c)"
proof
  assume t: "trim s \<noteq> []"
  have ne: "dropWhile isWhitespace s \<noteq> []"
  proof
    assume e: "dropWhile isWhitespace s = []"
    have "trim s = []" by (simp only: trim_def e rev.simps dropWhile.simps)
    with t show False by simp
  qed
  define h where "h = hd (dropWhile isWhitespace s)"
  have 1: "\<not> isWhitespace h"
    unfolding h_def using ne by (rule hd_dropWhile)
  have "h \<in> set (dropWhile isWhitespace s)"
    unfolding h_def using ne by (rule hd_in_set)
  then have 2: "h \<in> set s"
    by (rule set_dropWhileD)
  from 1 2 show "\<exists>c \<in> set s. \<not> isWhitespace c"
    by blast
next
  assume "\<exists>c \<in> set s. \<not> isWhitespace c"
  then obtain c where c: "c \<in> set s" "\<not> isWhitespace c" by blast
  have "c \<in> set (dropWhile isWhitespace s)"
    using c by (rule in_dropWhile)
  then have "c \<in> set (rev (dropWhile isWhitespace s))" by simp
  then have "c \<in> set (dropWhile isWhitespace (rev (dropWhile isWhitespace s)))"
    using c(2) by (rule in_dropWhile)
  then have "c \<in> set (trim s)" by (simp only: trim_def set_rev)
  then show "trim s \<noteq> []" by force
qed


declare split_sentenceEndings.simps [simp del] simpleChunkText_loop.simps [simp del]

lemma split_Nil: "split_sentenceEndings a cur [] = [cur]"
  by (subst split_sentenceEndings.simps) simp

lemma split_match:
  "matchSentenceEndings a (c # cs) = Some r
     \<Longrightarrow> split_sentenceEndings a cur (c # cs) = cur # split_sentenceEndings False [] r"
  by (subst split_sentenceEndings.simps) simp

lemma split_nomatch:
  "matchSentenceEndings a (c # cs) = None
     \<Longrightarrow> split_sentenceEndings a cur (c # cs) = split_sentenceEndings (isSentenceEnd c) (cur @ [c]) cs"
  by (subst split_sentenceEndings.simps) simp

lemma isWhitespace_LF: "isWhitespace (CHR 0x0A)" and isWhitespace_CR: "isWhitespace (CHR 0x0D)"
  by (simp_all add: isWhitespace_def)

lemma match_cases:
  assumes "matchSentenceEndings a rest = Some r"
  shows "(rest \<noteq> [] \<and> isWhitespace (hd rest) \<and> r = dropWhile isWhitespace rest)
         \<or> (take 2 rest = [CHR 0x0A, CHR 0x0A] \<and> r = dropWhile (\<lambda>c. c = CHR 0x0A) (drop 2 rest))
         \<or> (take 4 rest = [CHR 0x0D, CHR 0x0A, CHR 0x0D, CHR 0x0A]
              \<and> r = dropWhile (\<lambda>c. c = CHR 0x0A) (drop 4 rest))"
proof (cases "a \<and> rest \<noteq> [] \<and> isWhitespace (hd rest)")
  case True
  with assms show ?thesis by (simp add: matchSentenceEndings_def)
next
  case n1: False
  show ?thesis
  proof (cases "take 2 rest = [CHR 0x0A, CHR 0x0A]")
    case True
    with assms n1 show ?thesis by (simp add: matchSentenceEndings_def)
  next
    case n2: False
    show ?thesis
    proof (cases "take 4 rest = [CHR 0x0D, CHR 0x0A, CHR 0x0D, CHR 0x0A]")
      case True
      with assms n1 n2 show ?thesis by (simp add: matchSentenceEndings_def)
    next
      case False
      with assms n1 n2 show ?thesis by (simp add: matchSentenceEndings_def)
    qed
  qed
qed

lemma take_eq_length:
  assumes "take n xs = ys" "length ys = n"
  shows "n \<le> length xs"
proof -
  have "length (take n xs) = n" by (simp only: assms)
  then show ?thesis by (simp add: min_def split: if_splits)
qed

lemma match_shorter:
  assumes "matchSentenceEndings a rest = Some r"
  shows "length r < length rest"
proof -
  have le: "length (dropWhile P xs) \<le> length xs" for P and xs :: string
    by (rule length_dropWhile_le)
  from match_cases [OF assms] consider
      (ws) "rest \<noteq> []" "isWhitespace (hd rest)" "r = dropWhile isWhitespace rest"
    | (lf) "take 2 rest = [CHR 0x0A, CHR 0x0A]" "r = dropWhile (\<lambda>c. c = CHR 0x0A) (drop 2 rest)"
    | (crlf) "take 4 rest = [CHR 0x0D, CHR 0x0A, CHR 0x0D, CHR 0x0A]"
        "r = dropWhile (\<lambda>c. c = CHR 0x0A) (drop 4 rest)"
    by blast
  then show ?thesis
  proof cases
    case ws
    then obtain c cs where rest: "rest = c # cs" by (cases rest) auto
    with ws le [of isWhitespace cs] show ?thesis by simp
  next
    case lf
    have "2 \<le> length rest" by (rule take_eq_length [OF lf(1)]) simp
    with lf(2) le [of "\<lambda>c. c = CHR 0x0A" "drop 2 rest"] show ?thesis by simp
  next
    case crlf
    have "4 \<le> length rest" by (rule take_eq_length [OF crlf(1)]) simp
    with crlf(2) le [of "\<lambda>c. c = CHR 0x0A" "drop 4 rest"] show ?thesis by simp
  qed
qed

lemma match_keeps_nonblank:
  assumes "matchSentenceEndings a rest = Some r" "c \<in> set rest" "\<not> isWhitespace c"
  shows "c \<in> set r"
proof -
  have nlf: "c \<noteq> CHR 0x0A" "c \<noteq> CHR 0x0D"
    using assms(3) isWhitespace_LF isWhitespace_CR by auto
  have parts: "c \<in> set (take n rest) \<or> c \<in> set (drop n rest)" for n
  proof -
    have "set rest = set (take n rest) \<union> set (drop n rest)"
      by (simp only: set_append [symmetric] append_take_drop_id)
    with assms(2) show ?thesis by simp
  qed
  from match_cases [OF assms(1)] consider
      (ws) "r = dropWhile isWhitespace rest"
    | (lf) "take 2 rest = [CHR 0x0A, CHR 0x0A]" "r = dropWhile (\<lambda>c. c = CHR 0x0A) (drop 2 rest)"
    | (crlf) "take 4 rest = [CHR 0x0D, CHR 0x0A, CHR 0x0D, CHR 0x0A]"
        "r = dropWhile (\<lambda>c. c = CHR 0x0A) (drop 4 rest)"
    by blast
  then show ?thesis
  proof cases
    case ws
    then show ?thesis using assms(2,3) by (simp add: in_dropWhile)
  next
    case lf
    from parts [of 2] have "c \<in> set (drop 2 rest)"
      unfolding lf(1) using nlf by simp
    then show ?thesis unfolding lf(2) using nlf(1) by (rule in_dropWhile)
  next
    case crlf
    from parts [of 4] have "c \<in> set (drop 4 rest)"
      unfolding crlf(1) using nlf by simp
    then show ?thesis unfolding crlf(2) using nlf(1) by (rule in_dropWhile)
  qed
qed

lemma split_length:
  "sum_list (map length (split_sentenceEndings a cur rest)) + length (split_sentenceEndings a cur rest)
     \<le> length cur + length rest + 1"
proof (induction a cur rest rule: split_sentenceEndings.induct)
  case (1 a cur rest)
  show ?case
  proof (cases rest)
    case Nil
    then show ?thesis by (simp add: split_Nil)
  next
    case (Cons c cs)
    show ?thesis
    proof (cases "matchSentenceEndings a rest")
      case None
      with 1(1) [OF Cons None] Cons show ?thesis
        by (simp add: split_nomatch)
    next
      case (Some r)
      from match_shorter [OF Some] have "length r + 1 \<le> length rest" by simp
      with 1(2) [OF Cons Some] Cons Some show ?thesis
        by (simp add: split_match)
    qed
  qed
qed

lemma split_covers:
  assumes "c \<in> set cur \<union> set rest" "\<not> isWhitespace c"
  shows "\<exists>p \<in> set (split_sentenceEndings a cur rest). c \<in> set p"
  using assms
proof (induction a cur rest rule: split_sentenceEndings.induct)
  case (1 a cur rest)
  show ?case
  proof (cases rest)
    case Nil
    with 1(3) show ?thesis by (simp add: split_Nil)
  next
    case (Cons x xs)
    show ?thesis
    proof (cases "matchSentenceEndings a rest")
      case None
      have "c \<in> set (cur @ [x]) \<union> set xs" using 1(3) Cons by auto
      from 1(1) [OF Cons None this 1(4)] Cons None show ?thesis
        by (simp add: split_nomatch)
    next
      case (Some r)
      show ?thesis
      proof (cases "c \<in> set cur")
        case True
        then show ?thesis using Cons Some by (simp add: split_match)
      next
        case False
        with 1(3) have "c \<in> set rest" by simp
        from match_keeps_nonblank [OF Some this 1(4)] have "c \<in> set [] \<union> set r" by simp
        from 1(2) [OF Cons Some this 1(4)] Cons Some show ?thesis
          by (simp add: split_match)
      qed
    qed
  qed
qed

lemma sentences_weight:
  "sum_list (map length (map trim (filter (\<lambda>s. s \<noteq> [] \<and> length (trim s) > 0) ps)))
     + length (filter (\<lambda>s. s \<noteq> [] \<and> length (trim s) > 0) ps)
   \<le> sum_list (map length ps) + length ps"
proof (induction ps)
  case Nil
  then show ?case by simp
next
  case (Cons p ps)
  with length_trim_le [of p] show ?case by auto
qed

text \<open>
  While the sentences still to come fit, the loop of \<^verbatim>\<open>chunkText\<close> pushes no chunk and
  appends each sentence to the current chunk after a space.
\<close>

lemma chunkText_loop_fits:
  assumes "cur \<noteq> []"
      and "\<forall>p \<in> set rest. trim p \<noteq> []"
      and "int (length cur + sum_list (map (\<lambda>p. length (trim p) + 1) rest)) \<le> sz"
  shows "chunkText_loop sz ov rest ([], cur) = ([], foldl (\<lambda>acc p. acc @ '' '' @ trim p) cur rest)"
  using assms
proof (induction rest arbitrary: cur)
  case Nil
  then show ?case by simp
next
  case (Cons p rest)
  have p: "trim p \<noteq> []" using Cons.prems(2) by simp
  have fit: "int (length cur + 1 + length (trim p)) \<le> sz"
    using Cons.prems(3) by simp
  have step: "chunkText_step sz ov p ([], cur) = ([], cur @ '' '' @ trim p)"
    using p fit Cons.prems(1) by (simp add: chunkText_step_def Let_def)
  have "chunkText_loop sz ov rest ([], cur @ '' '' @ trim p)
          = ([], foldl (\<lambda>acc p. acc @ '' '' @ trim p) (cur @ '' '' @ trim p) rest)"
    by (rule Cons.IH) (use Cons.prems in simp_all)
  with step show ?case by simp
qed

lemma join_ends:
  assumes "a \<noteq> []" "\<not> isWhitespace (hd a)" "\<not> isWhitespace (last a)"
      and "\<forall>p \<in> set rest. trim p \<noteq> []"
  shows "foldl (\<lambda>acc p. acc @ '' '' @ trim p) a rest \<noteq> []
         \<and> \<not> isWhitespace (hd (foldl (\<lambda>acc p. acc @ '' '' @ trim p) a rest))
         \<and> \<not> isWhitespace (last (foldl (\<lambda>acc p. acc @ '' '' @ trim p) a rest))"
  using assms
proof (induction rest arbitrary: a)
  case Nil
  then show ?case by simp
next
  case (Cons p rest)
  have p: "trim p \<noteq> []" using Cons.prems(4) by simp
  have e: "a @ '' '' @ trim p \<noteq> []" "hd (a @ '' '' @ trim p) = hd a"
    "last (a @ '' '' @ trim p) = last (trim p)"
    using Cons.prems(1) p by simp_all
  have "foldl (\<lambda>acc p. acc @ '' '' @ trim p) (a @ '' '' @ trim p) rest \<noteq> []
         \<and> \<not> isWhitespace (hd (foldl (\<lambda>acc p. acc @ '' '' @ trim p) (a @ '' '' @ trim p) rest))
         \<and> \<not> isWhitespace (last (foldl (\<lambda>acc p. acc @ '' '' @ trim p) (a @ '' '' @ trim p) rest))"
    by (rule Cons.IH) (use e Cons.prems trim_ends [OF p] in simp_all)
  then show ?case by simp
qed

lemma chunkText_short:
  assumes t: "trim t \<noteq> []" and len: "int (length t) \<le> sz"
  shows "chunkText t sz ov = [join_spaces (sentences_of t)]"
proof -
  define ps where "ps = filter (\<lambda>s. s \<noteq> [] \<and> length (trim s) > 0) (split_sentenceEndings False [] t)"
  from t obtain c where c: "c \<in> set t" "\<not> isWhitespace c"
    by (auto simp: trim_nonblank_iff)
  then have "c \<in> set [] \<union> set t" by simp
  from split_covers [OF this c(2), of False] obtain p0 where
    p0: "p0 \<in> set (split_sentenceEndings False [] t)" "c \<in> set p0"
    by blast
  have "trim p0 \<noteq> []" using p0(2) c(2) by (auto simp: trim_nonblank_iff)
  with p0 have "p0 \<in> set ps" by (auto simp: ps_def)
  then obtain p rest where ps: "ps = p # rest" by (cases ps) auto
  have all: "\<forall>q \<in> set ps. trim q \<noteq> []" by (auto simp: ps_def)
  define S where "S = sum_list (map (\<lambda>q. length (trim q)) rest)"
  have "sum_list (map length (map trim ps)) + length ps \<le> length t + 1"
    using sentences_weight [of "split_sentenceEndings False [] t"]
      split_length [of False "[]" t]
    by (simp add: ps_def)
  then have w: "length (trim p) + S + length rest \<le> length t"
    by (simp add: ps S_def comp_def)
  have sum: "sum_list (map (\<lambda>q. length (trim q) + 1) rest) = S + length rest"
    unfolding S_def by (induction rest) simp_all
  have fit: "int (length (trim p) + sum_list (map (\<lambda>p. length (trim p) + 1) rest)) \<le> sz"
    unfolding sum using w len by linarith
  have p: "trim p \<noteq> []" using all ps by simp
  have fit1: "int (length (trim p)) \<le> sz" using fit by simp
  define J where "J = foldl (\<lambda>acc p. acc @ '' '' @ trim p) (trim p) rest"
  have restall: "\<forall>q \<in> set rest. trim q \<noteq> []" using all ps by simp
  have loop: "chunkText_loop sz ov' ps ([], []) = ([], J)" for ov'
  proof -
    have "chunkText_step sz ov' p ([], []) = ([], trim p)"
      using p fit1 by (simp add: chunkText_step_def Let_def)
    with chunkText_loop_fits [OF p restall fit, of ov'] show ?thesis
      by (simp add: ps J_def)
  qed
  from join_ends [OF p _ _ restall] trim_ends [OF p]
  have J: "J \<noteq> []" "\<not> isWhitespace (hd J)" "\<not> isWhitespace (last J)"
    by (simp_all add: J_def)
  have trimJ: "trim J = J" using trim_id [OF J] .
  have tne: "t \<noteq> []" using t by (auto simp: trim_def)
  then have "0 < length t" by simp
  with len have pos: "0 < sz" by linarith
  have sent: "filter (\<lambda>s. s \<noteq> [] \<and> length (trim s) > 0) (split_sentenceEndings False [] t) = ps"
    by (simp add: ps_def)
  have nz: "length ps \<noteq> 0" by (simp add: ps)
  have "chunkText t sz ov = [J]"
    unfolding chunkText_def Let_def sent
    using t tne pos nz J(1) by (simp add: loop trimJ)
  moreover have "join_spaces (sentences_of t) = J"
    unfolding sentences_of_def sent ps join_spaces_def J_def by (simp add: foldl_map)
  ultimately show ?thesis by simp
qed


lemma sentences_of_example:
  "sentences_of ''A.  B'' = [''A.'', ''B'']"
  "split_sentenceEndings False [] '' hello '' = ['' hello '']"
  "trim ''A.  B'' = ''A.  B''"
  "trim '' hello '' = ''hello''"
  by (simp_all add: sentences_of_def split_sentenceEndings.simps matchSentenceEndings_def
      isSentenceEnd_def trim_def isWhitespace_def)

text \<open>
  C7. A text that is not blank and no longer than the chunk size becomes exactly one
  chunk: its sentences, that is the pieces between the matches of \<^verbatim>\<open>sentenceEndings\<close> that
  are not blank, each trimmed, joined by single spaces. When nothing in the text matches
  \<^verbatim>\<open>sentenceEndings\<close>, the one sentence is the text and the chunk is \<^verbatim>\<open>text.trim()\<close>.
\<close>

theorem chunkText_short_text_one_chunk:
  assumes "trim t \<noteq> []" and "int (length t) \<le> sz"
  shows "chunkText t sz ov = [join_spaces (sentences_of t)]
         \<and> (split_sentenceEndings False [] t = [t] \<longrightarrow> chunkText t sz ov = [trim t])"
proof -
  have one: "chunkText t sz ov = [join_spaces (sentences_of t)]"
    using assms by (rule chunkText_short)
  have "join_spaces (sentences_of t) = trim t" if "split_sentenceEndings False [] t = [t]"
    using that assms(1) by (auto simp: sentences_of_def join_spaces_def trim_def)
  with one show ?thesis by simp
qed

theorem chunkText_short_text_one_chunk_witness:
  "trim ''A.  B'' \<noteq> [] \<and> int (length ''A.  B'') \<le> 10
   \<and> chunkText ''A.  B'' 10 0 = [''A. B'']
   \<and> trim '' hello '' \<noteq> [] \<and> int (length '' hello '') \<le> 7
   \<and> split_sentenceEndings False [] '' hello '' = ['' hello '']
   \<and> chunkText '' hello '' 7 3 = [''hello'']"
proof -
  have a: "trim ''A.  B'' \<noteq> []" "int (length ''A.  B'') \<le> 10"
    "trim '' hello '' \<noteq> []" "int (length '' hello '') \<le> 7"
    by (simp_all add: sentences_of_example)
  have j: "join_spaces [''A.'', ''B''] = ''A. B''"
    by (simp add: join_spaces_def)
  have b: "chunkText ''A.  B'' 10 0 = [join_spaces (sentences_of ''A.  B'')]"
    using chunkText_short_text_one_chunk [OF a(1,2), of 0] by (rule conjunct1)
  have c: "chunkText '' hello '' 7 3 = [trim '' hello '']"
    using chunkText_short_text_one_chunk [OF a(3,4), of 3] sentences_of_example(2) by blast
  show ?thesis
    using a by (simp add: b c sentences_of_example j)
qed

text \<open>
  Where the statement of the specification fails: the two spaces between the sentences of
  \<^verbatim>\<open>A.  B\<close> are a sentence ending, and the chunk has the sentences joined by one space.
\<close>

theorem chunkText_joins_sentences_counterexample:
  "trim ''A.  B'' \<noteq> [] \<and> int (length ''A.  B'') \<le> 10
   \<and> chunkText ''A.  B'' 10 0 = [''A. B'']
   \<and> trim ''A.  B'' = ''A.  B''
   \<and> [''A. B''] \<noteq> [trim ''A.  B'']"
proof -
  have a: "trim ''A.  B'' \<noteq> []" "int (length ''A.  B'') \<le> 10"
    by (simp_all add: sentences_of_example)
  have j: "join_spaces [''A.'', ''B''] = ''A. B''"
    by (simp add: join_spaces_def)
  from chunkText_short [OF a, of 0] show ?thesis
    by (simp add: sentences_of_example j)
qed

end
